theory Spec2Isabelle
  imports Main
begin

section \<open>Text\<close>

text \<open>
  A Python \<open>str\<close> is a sequence of Unicode code points. A text is modelled as the list
  of its code points (the integers that \<open>ord\<close> returns), so that \<open>length\<close> counts
  what Python's \<open>len\<close> counts and a character class of a regular expression is a
  predicate on one code point. The texts of this development are the \<open>str\<close> values
  that \<open>file.read()\<close> returns and that \<open>file.write\<close> receives.
\<close>

type_synonym uchar = int
type_synonym ustr = "uchar list"

definition ascii :: "string \<Rightarrow> ustr" where
  "ascii s = map of_char s"

definition LF :: uchar where "LF = 10"
definition CR :: uchar where "CR = 13"
definition space :: uchar where "space = 32"
definition hash :: uchar where "hash = 35"
definition dollar :: uchar where "dollar = 36"
definition plus_sign :: uchar where "plus_sign = 43"
definition at_sign :: uchar where "at_sign = 64"
definition bslash :: uchar where "bslash = 92"
definition lbrace :: uchar where "lbrace = 123"
definition vbar :: uchar where "vbar = 124"
definition rbrace :: uchar where "rbrace = 125"
definition mu :: uchar where "mu = 181"
definition ta_marbuta :: uchar where "ta_marbuta = 1577"

section \<open>Character classes\<close>

definition in_ranges :: "(int \<times> int) list \<Rightarrow> uchar \<Rightarrow> bool" where
  "in_ranges rs c = list_ex (\<lambda>(lo, hi). lo \<le> c \<and> c \<le> hi) rs"

text \<open>\<open>a-zA-Z\<close> inside a character class.\<close>

definition latin_letter :: "uchar \<Rightarrow> bool" where
  "latin_letter c = in_ranges [(97, 122), (65, 90)] c"

text \<open>
  \<open>\d\<close> in a \<open>str\<close> pattern matches every character of the Unicode category Nd
  (decimal digit), not only \<open>0-9\<close>: the Arabic-Indic digits U+0660..U+0669 are among
  them. The ranges are those of Unicode 14.0.
\<close>

definition Nd_ranges :: "(int \<times> int) list" where
  "Nd_ranges =
    [(48, 57), (1632, 1641), (1776, 1785), (1984, 1993), (2406, 2415), (2534, 2543),
     (2662, 2671), (2790, 2799), (2918, 2927), (3046, 3055), (3174, 3183), (3302, 3311),
     (3430, 3439), (3558, 3567), (3664, 3673), (3792, 3801), (3872, 3881), (4160, 4169),
     (4240, 4249), (6112, 6121), (6160, 6169), (6470, 6479), (6608, 6617), (6784, 6793),
     (6800, 6809), (6992, 7001), (7088, 7097), (7232, 7241), (7248, 7257), (42528, 42537),
     (43216, 43225), (43264, 43273), (43472, 43481), (43504, 43513), (43600, 43609),
     (44016, 44025), (65296, 65305), (66720, 66729), (68912, 68921), (69734, 69743),
     (69872, 69881), (69942, 69951), (70096, 70105), (70384, 70393), (70736, 70745),
     (70864, 70873), (71248, 71257), (71360, 71369), (71472, 71481), (71904, 71913),
     (72016, 72025), (72784, 72793), (73040, 73049), (73120, 73129), (92768, 92777),
     (92864, 92873), (93008, 93017), (120782, 120831), (123200, 123209), (123632, 123641),
     (125264, 125273), (130032, 130041)]"

definition decimal_digit :: "uchar \<Rightarrow> bool" where
  "decimal_digit c = in_ranges Nd_ranges c"

text \<open>\<open>[\n\r]\<close> and its complement \<open>[^\n\r]\<close>.\<close>

definition newline :: "uchar \<Rightarrow> bool" where
  "newline c = (c = LF \<or> c = CR)"

definition not_newline :: "uchar \<Rightarrow> bool" where
  "not_newline c = (\<not> newline c)"

text \<open>\<open>[a-zA-Z\d .;#\n\r]\<close>, the class repeated at the start of \<open>non_ar_regex\<close>.\<close>

definition run_char :: "uchar \<Rightarrow> bool" where
  "run_char c = (latin_letter c \<or> decimal_digit c \<or> c = space \<or> c = 46 \<or> c = 59
                 \<or> c = hash \<or> c = LF \<or> c = CR)"

text \<open>\<open>[a-zA-Z\d.;#]\<close>, the class that ends \<open>non_ar_regex\<close>.\<close>

definition end_char :: "uchar \<Rightarrow> bool" where
  "end_char c = (latin_letter c \<or> decimal_digit c \<or> c = 46 \<or> c = 59 \<or> c = hash)"

text \<open>\<open>[#\|\$]\<close>, the stray symbols deleted in removal mode.\<close>

definition stray_symbol :: "uchar \<Rightarrow> bool" where
  "stray_symbol c = (c = hash \<or> c = vbar \<or> c = dollar)"

section \<open>Regular expressions\<close>

text \<open>
  Every pattern of \<open>farasa.py\<close> is a sequence of atoms of two kinds: one character of
  a class, or a greedy repetition \<open>{n,}\<close> (\<open>*\<close> is \<open>{0,}\<close>) of one character of
  a class. The group of \<open>non_ar_regex\<close> encloses the whole pattern, so group 1 is the
  whole match.
\<close>

datatype atom = One "uchar \<Rightarrow> bool" | AtLeast nat "uchar \<Rightarrow> bool"

definition literal :: "ustr \<Rightarrow> atom list" where
  "literal s = map (\<lambda>c. One (\<lambda>d. d = c)) s"

text \<open>
  The backtracking of a greedy repetition: with \<open>k\<close> characters taken, try the rest of
  the pattern (\<open>f\<close>) on what follows; when it fails give one character back, down to
  the minimum \<open>n\<close>.
\<close>

primrec backoff :: "(ustr \<Rightarrow> nat option) \<Rightarrow> ustr \<Rightarrow> nat \<Rightarrow> nat \<Rightarrow> nat option" where
  "backoff f s n 0 = (if 0 < n then None else f s)"
| "backoff f s n (Suc j) =
     (if Suc j < n then None
      else case f (drop (Suc j) s) of
             Some l \<Rightarrow> Some (Suc j + l)
           | None \<Rightarrow> backoff f s n j)"

text \<open>
  \<open>match_len p s\<close> is the length of the match of \<open>p\<close> that starts at the head of
  \<open>s\<close>, the first one the backtracking matcher finds; \<open>None\<close> when there is none.
\<close>

primrec match_len :: "atom list \<Rightarrow> ustr \<Rightarrow> nat option" where
  "match_len [] s = Some 0"
| "match_len (a # r) s =
     (case a of
        One p \<Rightarrow> (case s of
                    [] \<Rightarrow> None
                  | c # cs \<Rightarrow> if p c then map_option Suc (match_len r cs) else None)
      | AtLeast n p \<Rightarrow> backoff (match_len r) s n (length (takeWhile p s)))"

text \<open>
  The scan shared by \<open>re.sub\<close> and \<open>re.findall\<close>: leftmost matches, none of them
  overlapping, and the characters between them. An empty match is followed by one
  character of the text, as in Python 3.7 and later.
\<close>

datatype seg = Lit uchar | Match ustr

function scan :: "atom list \<Rightarrow> ustr \<Rightarrow> seg list" where
  "scan p [] = (case match_len p [] of None \<Rightarrow> [] | Some _ \<Rightarrow> [Match []])"
| "scan p (c # cs) =
     (case match_len p (c # cs) of
        None \<Rightarrow> Lit c # scan p cs
      | Some 0 \<Rightarrow> Match [] # Lit c # scan p cs
      | Some (Suc n) \<Rightarrow> Match (c # take n cs) # scan p (drop n cs))"
  by pat_completeness auto
termination
  by (relation "measure (\<lambda>(p, s). length s)") auto

definition re_findall :: "atom list \<Rightarrow> ustr \<Rightarrow> ustr list" where
  "re_findall p s = concat (map (\<lambda>g. case g of Lit c \<Rightarrow> [] | Match m \<Rightarrow> [m]) (scan p s))"

text \<open>\<open>re.sub\<close> with a replacement that holds no backslash: it is inserted as it is.\<close>

definition re_sub :: "atom list \<Rightarrow> ustr \<Rightarrow> ustr \<Rightarrow> ustr" where
  "re_sub p repl s = concat (map (\<lambda>g. case g of Lit c \<Rightarrow> [c] | Match m \<Rightarrow> repl) (scan p s))"

text \<open>
  What stops a flow short of its result: the exception raised. \<open>IndexError\<close>,
  \<open>ValueError\<close> and \<open>KeyError\<close> are raised by \<open>str.format\<close>,
  \<open>UnicodeEncodeError\<close> by \<open>file.write\<close>. \<open>Bad_template\<close> stands for the
  exception \<open>re.sub\<close> raises on a replacement template it rejects: \<open>re.error\<close>,
  or \<open>IndexError\<close> when the template refers to a group by a name that is an identifier,
  the patterns here having no named group. \<open>Field_contents\<close> is no exception: it
  marks a replacement field of a format string whose contents select an argument by index or
  attribute, or carry a conversion or a format specification, the outcome of which is not
  embedded here.
\<close>

datatype halt = IndexError | ValueError | KeyError | UnicodeEncodeError | Bad_template
  | Field_contents

section \<open>Replacement templates\<close>

text \<open>
  A replacement that holds a backslash is a template, which \<open>re.sub\<close> parses before
  it looks for a match (\<open>re._parser.parse_template\<close> of Python 3.11). The patterns it
  is used with here have no group, so the only group a template can refer to is group 0,
  the whole match, under the form \<open>\g<0>\<close>. The parts of a parsed template are
  characters and references to group 0.
\<close>

datatype tpart = TChar uchar | TGroup0

text \<open>\<open>0-9\<close>, \<open>0-7\<close>, and the escapes \<open>\a \b \f \n \r \t \v \\\<close> with their values.\<close>

definition ascii_digit :: "uchar \<Rightarrow> bool" where
  "ascii_digit c = (48 \<le> c \<and> c \<le> 57)"

definition octal_digit :: "uchar \<Rightarrow> bool" where
  "octal_digit c = (48 \<le> c \<and> c \<le> 55)"

definition escapes :: "(uchar \<times> uchar) list" where
  "escapes = [(97, 7), (98, 8), (102, 12), (110, 10), (114, 13), (116, 9), (118, 11), (92, 92)]"

text \<open>
  The white space that \<open>int()\<close> skips at both ends of its argument: that of
  \<open>str.isspace\<close> less the separators U+001C to U+001F.
\<close>

definition int_space :: "uchar \<Rightarrow> bool" where
  "int_space c = in_ranges [(9, 13), (32, 32), (133, 133), (160, 160), (5760, 5760),
     (8192, 8202), (8232, 8233), (8239, 8239), (8287, 8287), (12288, 12288)] c"

text \<open>
  The name between \<open>\g<\<close> and \<open>>\<close> is accepted when \<open>int(name)\<close> is 0: white
  space around, an optional sign, then decimal digits of any script, all of value 0, single
  underscores allowed between two digits, and at most 4300 digits (the default limit of
  \<open>int\<close>). In every block of ten decimal digits the first one has the value 0.
  \<open>zero_digits expect n s\<close> is the number of digits of \<open>s\<close> added to \<open>n\<close>;
  \<open>expect\<close> tells that a digit has to come next.
\<close>

definition zero_digit :: "uchar \<Rightarrow> bool" where
  "zero_digit c = list_ex (\<lambda>(lo, hi). lo \<le> c \<and> c \<le> hi \<and> (c - lo) mod 10 = 0) Nd_ranges"

fun zero_digits :: "bool \<Rightarrow> nat \<Rightarrow> ustr \<Rightarrow> nat option" where
  "zero_digits expect n [] = (if expect then None else Some n)"
| "zero_digits expect n (c # cs) =
     (if c = 95 then (if expect then None else zero_digits True n cs)
      else if zero_digit c then zero_digits False (Suc n) cs
      else None)"

definition zero_group_name :: "ustr \<Rightarrow> bool" where
  "zero_group_name name =
     (let s = rev (dropWhile int_space (rev (dropWhile int_space name)));
          s = (case s of [] \<Rightarrow> s | c # r \<Rightarrow> if c = 43 \<or> c = 45 then r else s)
      in case zero_digits True 0 s of None \<Rightarrow> False | Some n \<Rightarrow> n \<le> 4300)"

definition add_parts :: "tpart list \<Rightarrow> halt + tpart list \<Rightarrow> halt + tpart list" where
  "add_parts ps r = (case r of Inl e \<Rightarrow> Inl e | Inr qs \<Rightarrow> Inr (ps @ qs))"

text \<open>
  The template parser. After a backslash: \<open>g\<close> opens a group reference; \<open>0\<close> with
  up to two octal digits is the character of that octal value; another digit starts either
  an octal escape of three digits, of value at most \<open>0o377\<close>, or a reference to a
  group that does not exist; the escapes stand for their control character; any other
  ASCII letter is rejected; before any other character the backslash is kept. A backslash
  at the end is rejected.
\<close>

function parse_template :: "ustr \<Rightarrow> halt + tpart list" where
  "parse_template [] = Inr []"
| "parse_template (c # cs) =
     (if c \<noteq> bslash then add_parts [TChar c] (parse_template cs)
      else case cs of
        [] \<Rightarrow> Inl Bad_template
      | d # ds \<Rightarrow>
          if d = 103 then
            (case ds of
               [] \<Rightarrow> Inl Bad_template
             | l # ns \<Rightarrow>
                 if l = 60 \<and> dropWhile (\<lambda>x. x \<noteq> 62) ns \<noteq> []
                    \<and> zero_group_name (takeWhile (\<lambda>x. x \<noteq> 62) ns)
                 then add_parts [TGroup0] (parse_template (tl (dropWhile (\<lambda>x. x \<noteq> 62) ns)))
                 else Inl Bad_template)
          else if d = 48 then
            (case ds of
               [] \<Rightarrow> Inr [TChar 0]
             | e # es \<Rightarrow>
                 if \<not> octal_digit e then add_parts [TChar 0] (parse_template ds)
                 else (case es of
                         [] \<Rightarrow> Inr [TChar (e - 48)]
                       | f # fs \<Rightarrow>
                           if octal_digit f
                           then add_parts [TChar ((e - 48) * 8 + (f - 48))] (parse_template fs)
                           else add_parts [TChar (e - 48)] (parse_template es)))
          else if ascii_digit d then
            (case ds of
               [] \<Rightarrow> Inl Bad_template
             | e # es \<Rightarrow>
                 (case es of
                    [] \<Rightarrow> Inl Bad_template
                  | f # fs \<Rightarrow>
                      if octal_digit d \<and> octal_digit e \<and> octal_digit f
                         \<and> (d - 48) * 64 + (e - 48) * 8 + (f - 48) \<le> 255
                      then add_parts [TChar ((d - 48) * 64 + (e - 48) * 8 + (f - 48))]
                             (parse_template fs)
                      else Inl Bad_template))
          else (case map_of escapes d of
                  Some v \<Rightarrow> add_parts [TChar v] (parse_template ds)
                | None \<Rightarrow>
                    if latin_letter d then Inl Bad_template
                    else add_parts [TChar bslash, TChar d] (parse_template ds)))"
  by pat_completeness auto
termination
proof (relation "measure length")
  fix c :: uchar and cs x21 x22 x21a x22a :: ustr
  show "(tl (dropWhile (\<lambda>x. x \<noteq> 62) x22a), c # cs) \<in> measure length"
    if "cs = x21 # x22" "x22 = x21a # x22a" for x21 x21a
    using that length_dropWhile_le[of "\<lambda>x. x \<noteq> 62" x22a] by simp
qed auto

text \<open>
  A template that stands for itself: each backslash is followed by a character that is
  neither an ASCII letter, an ASCII digit nor a backslash, and the parser keeps both. A
  replacement without backslash is such a template.
\<close>

fun literal_template :: "ustr \<Rightarrow> bool" where
  "literal_template [] = True"
| "literal_template [c] = (c \<noteq> bslash)"
| "literal_template (c # d # s) =
     (if c = bslash
      then \<not> latin_letter d \<and> \<not> ascii_digit d \<and> d \<noteq> bslash \<and> literal_template s
      else literal_template (d # s))"

text \<open>What a parsed template gives for the match \<open>m\<close>.\<close>

definition expand_template :: "tpart list \<Rightarrow> ustr \<Rightarrow> ustr" where
  "expand_template parts m = concat (map (\<lambda>p. case p of TChar c \<Rightarrow> [c] | TGroup0 \<Rightarrow> m) parts)"

text \<open>
  \<open>re.sub\<close> with a replacement supplied by the caller, for a pattern without groups: a
  replacement without backslash is inserted as it is, one with a backslash is a template.
\<close>

definition re_sub_repl :: "atom list \<Rightarrow> ustr \<Rightarrow> ustr \<Rightarrow> halt + ustr" where
  "re_sub_repl p repl s =
     (if bslash \<notin> set repl then Inr (re_sub p repl s)
      else case parse_template repl of
             Inl e \<Rightarrow> Inl e
           | Inr parts \<Rightarrow>
               Inr (concat (map (\<lambda>g. case g of Lit c \<Rightarrow> [c] | Match m \<Rightarrow> expand_template parts m)
                      (scan p s))))"

section \<open>Text files\<close>

text \<open>
  The files are opened in text mode, encoding UTF-8, with the default \<open>newline=None\<close>.
  A file is modelled by the code points it encodes. On reading, \<open>\r\n\<close> and a lone
  \<open>\r\<close> both arrive as \<open>\n\<close>. On writing, \<open>\n\<close> is written as \<open>os.linesep\<close>,
  which is \<open>\n\<close> on the POSIX systems this development assumes, so that a text is
  stored as it is; a surrogate code point cannot be encoded and makes \<open>file.write\<close>
  raise. A text read from a file holds no surrogate, a string given by the caller may.
\<close>

fun read_text :: "ustr \<Rightarrow> ustr" where
  "read_text [] = []"
| "read_text [c] = [if c = CR then LF else c]"
| "read_text (c # d # s) =
     (if c = CR \<and> d = LF then LF # read_text s
      else if c = CR then LF # read_text (d # s)
      else c # read_text (d # s))"

definition surrogate :: "uchar \<Rightarrow> bool" where
  "surrogate c = (55296 \<le> c \<and> c \<le> 57343)"

definition write_text :: "ustr \<Rightarrow> halt + ustr" where
  "write_text text = (if list_ex surrogate text then Inl UnicodeEncodeError else Inr text)"

section \<open>The segmentation flow\<close>

text \<open>
  \<open>segment restore_ta_marbuta split_char raw\<close> is the content of the output file when
  \<open>segment\<close> returns, \<open>raw\<close> being what the segmenter jar wrote there. The command
  line passes \<open>None\<close> as \<open>split_char\<close> when the option is absent; \<open>None\<close> and the
  empty string are false in \<open>if split_char:\<close>.
\<close>

definition segment :: "bool \<Rightarrow> ustr option \<Rightarrow> ustr \<Rightarrow> halt + ustr" where
  "segment restore_ta_marbuta split_char raw =
     (if restore_ta_marbuta \<or> split_char \<noteq> Some [plus_sign] then
        let text = read_text raw;
            text = (if restore_ta_marbuta
                    then re_sub (literal [plus_sign, ta_marbuta]) [ta_marbuta] text else text)
        in case (case split_char of
                   None \<Rightarrow> Inr text
                 | Some sc \<Rightarrow>
                     if sc \<noteq> [] then re_sub_repl (literal [plus_sign]) sc text else Inr text) of
             Inl e \<Rightarrow> Inl e
           | Inr text \<Rightarrow> write_text text
      else Inr raw)"

text \<open>
  The post-processing of the segmentation in the words of the specification, as one pass
  over the text: a \<open>+\<close> followed by the ta marbuta is dropped, which reconnects the ta
  marbuta, and every other \<open>+\<close> becomes the split string, taken literally.
\<close>

fun reconnect_then_split :: "ustr \<Rightarrow> ustr \<Rightarrow> ustr" where
  "reconnect_then_split sc [] = []"
| "reconnect_then_split sc [c] = (if c = plus_sign then sc else [c])"
| "reconnect_then_split sc (c # d # s) =
     (if c = plus_sign \<and> d = ta_marbuta then ta_marbuta # reconnect_then_split sc s
      else if c = plus_sign then sc @ reconnect_then_split sc (d # s)
      else c # reconnect_then_split sc (d # s))"

section \<open>Strings\<close>

text \<open>\<open>str.isspace\<close>: the characters that \<open>str.strip()\<close> removes at both ends.\<close>

definition py_space :: "uchar \<Rightarrow> bool" where
  "py_space c = in_ranges [(9, 13), (28, 32), (133, 133), (160, 160), (5760, 5760),
     (8192, 8202), (8232, 8233), (8239, 8239), (8287, 8287), (12288, 12288)] c"

definition strip :: "ustr \<Rightarrow> ustr" where
  "strip s = rev (dropWhile py_space (rev (dropWhile py_space s)))"

text \<open>The line boundaries of \<open>str.splitlines\<close>; \<open>\r\n\<close> is one boundary.\<close>

definition line_break :: "uchar \<Rightarrow> bool" where
  "line_break c = in_ranges [(10, 13), (28, 30), (133, 133), (8232, 8233)] c"

fun lines_from :: "ustr \<Rightarrow> ustr \<Rightarrow> ustr list" where
  "lines_from acc [] = (if acc = [] then [] else [acc])"
| "lines_from acc (c # cs) =
     (if line_break c then
        acc # (case cs of
                 [] \<Rightarrow> lines_from [] cs
               | d # ds \<Rightarrow> if c = CR \<and> d = LF then lines_from [] ds else lines_from [] cs)
      else lines_from (acc @ [c]) cs)"

definition splitlines :: "ustr \<Rightarrow> ustr list" where
  "splitlines s = lines_from [] s"

text \<open>\<open>sep.join(xs)\<close>.\<close>

fun join :: "ustr \<Rightarrow> ustr list \<Rightarrow> ustr" where
  "join sep [] = []"
| "join sep [x] = x"
| "join sep (x # y # ys) = x @ sep @ join sep (y # ys)"

subsection \<open>\<open>str.format\<close> with positional arguments\<close>

definition emit :: "ustr \<Rightarrow> halt + ustr \<Rightarrow> halt + ustr" where
  "emit x r = (case r of Inl e \<Rightarrow> Inl e | Inr out \<Rightarrow> Inr (x @ out))"

text \<open>
  A replacement field whose contents start with a character that is neither a decimal
  digit nor one of \<open>. [ ! :\<close> names a keyword argument. \<open>field_name False s\<close> reads
  the contents up to the closing brace, \<open>s\<close> being what follows the opening brace, the way
  the parser of \<open>str.format\<close> does: an opening brace in the name and the end of the
  string are syntax errors, what stands between \<open>[\<close> and \<open>]\<close> is skipped, and a field
  that closes is looked up among the keyword arguments, of which there are none.
\<close>

fun field_name :: "bool \<Rightarrow> ustr \<Rightarrow> halt" where
  "field_name in_index [] = ValueError"
| "field_name in_index (c # cs) =
     (if in_index then field_name (c \<noteq> 93) cs
      else if c = lbrace then ValueError
      else if c = 91 then field_name True cs
      else if c = rbrace then KeyError
      else if c = 58 \<or> c = 33 then Field_contents
      else field_name False cs)"

text \<open>
  \<open>str_format t args\<close> is \<open>t.format(*args)\<close>. The format string is read from the
  left: \<open>{{\<close> and \<open>}}\<close> stand for one brace, \<open>{}\<close> takes the next argument, a
  brace alone is an error, and the first error met is the one raised.
\<close>

fun str_format :: "ustr \<Rightarrow> ustr list \<Rightarrow> halt + ustr" where
  "str_format [] args = Inr []"
| "str_format (c # cs) args =
     (if c = lbrace then
        (case cs of
           [] \<Rightarrow> Inl ValueError
         | d # ds \<Rightarrow>
             if d = lbrace then emit [lbrace] (str_format ds args)
             else if d = rbrace then
               (case args of
                  [] \<Rightarrow> Inl IndexError
                | a # as \<Rightarrow> emit a (str_format ds as))
             else if decimal_digit d \<or> d = 46 \<or> d = 91 \<or> d = 33 \<or> d = 58
               then Inl Field_contents
             else Inl (field_name False cs))
      else if c = rbrace then
        (case cs of
           [] \<Rightarrow> Inl ValueError
         | d # ds \<Rightarrow> if d = rbrace then emit [rbrace] (str_format ds args) else Inl ValueError)
      else emit [c] (str_format cs args))"

section \<open>The tagging flow\<close>

text \<open>\<open>([a-zA-Z\d .;#\n\r]{6,}[^\n\r][a-zA-Z\d.;#])\<close>\<close>

definition non_ar_regex :: "atom list" where
  "non_ar_regex = [AtLeast 6 run_char, One not_newline, One end_char]"

text \<open>
  Lines 123 to 127: the text written to \<open>temp.txt\<close> when \<open>ditch_non_Arabic\<close> is set.
  \<open>stripped_lines\<close> is the list comprehension of lines 125 to 127.
\<close>

definition stripped_lines :: "ustr \<Rightarrow> ustr list" where
  "stripped_lines s = map strip (filter (\<lambda>line. strip line \<noteq> []) (splitlines s))"

definition remove_non_Arabic :: "ustr \<Rightarrow> ustr" where
  "remove_non_Arabic text =
     (let ar_only = re_sub non_ar_regex [LF] text;
          ar_only = re_sub [One stray_symbol] [] ar_only
      in join [LF] (stripped_lines ar_only))"

text \<open>
  Lines 130 and 131: the spans kept for later (\<open>non_ar\<close>) and the text written to
  \<open>temp.txt\<close> (\<open>ar_only\<close>), each span replaced by the line \<open>\<mu>\<mu>\<mu>\<close>.
\<close>

definition placeholder_line :: ustr where
  "placeholder_line = [LF, mu, mu, mu, LF]"

definition mask_non_Arabic :: "ustr \<Rightarrow> ustr list \<times> ustr" where
  "mask_non_Arabic text =
     (let non_ar = re_findall non_ar_regex text;
          ar_only = re_sub non_ar_regex placeholder_line text
      in (non_ar, ar_only))"

text \<open>\<open>[\n\r]*S/S \<mu>/PUNC \<mu>/PUNC \<mu>/PUNC E/E[\n\r]*\<close>\<close>

definition tagged_placeholder :: ustr where
  "tagged_placeholder =
     ascii ''S/S '' @ [mu] @ ascii ''/PUNC '' @ [mu] @ ascii ''/PUNC '' @ [mu] @ ascii ''/PUNC E/E''"

definition pattern :: "atom list" where
  "pattern = [AtLeast 0 newline] @ literal tagged_placeholder @ [AtLeast 0 newline]"

text \<open>Lines 148 to 150: every tagged placeholder becomes a slot, and the slots are filled.\<close>

definition fill_slots :: "ustr \<Rightarrow> ustr list \<Rightarrow> halt + ustr" where
  "fill_slots tagged non_ar =
     (let ar_only = re_sub pattern [lbrace, rbrace] tagged
      in str_format ar_only non_ar)"

text \<open>\<open>### *[\n\r]*S/S\<close>, rewritten by line 151 to \<open>S/S #/PUNC #/PUNC #/PUNC\<close>.\<close>

definition hashes_before_sentence :: "atom list" where
  "hashes_before_sentence =
     literal [hash, hash, hash] @ [AtLeast 0 (\<lambda>c. c = space), AtLeast 0 newline]
     @ literal (ascii ''S/S'')"

text \<open>
  Lines 146 to 156: the final content of the output file, \<open>tagged\<close> being what the
  tagger jar wrote there.
\<close>

definition restore_non_Arabic :: "ustr \<Rightarrow> ustr list \<Rightarrow> halt + ustr" where
  "restore_non_Arabic tagged non_ar =
     (case fill_slots tagged non_ar of
        Inl e \<Rightarrow> Inl e
      | Inr text \<Rightarrow>
          Inr (re_sub hashes_before_sentence (ascii ''S/S #/PUNC #/PUNC #/PUNC'') text))"

text \<open>
  The tagger jar is outside the repository: \<open>tagger\<close> maps the content of the file it
  is given to the content of the file it writes. \<open>POS_tag tagger only_Arabic
  ditch_non_Arabic file\<close> is the content of the output file when \<open>POS_tag\<close> returns,
  \<open>file\<close> being the content of the input file. On the direct path the jar is given the
  input file itself; otherwise it is given \<open>temp.txt\<close>, written from the text read from
  the input file, and with preservation the output file is read, restored and written back.
\<close>

definition POS_tag :: "(ustr \<Rightarrow> ustr) \<Rightarrow> bool \<Rightarrow> bool \<Rightarrow> ustr \<Rightarrow> halt + ustr" where
  "POS_tag tagger only_Arabic ditch_non_Arabic file =
     (if \<not> only_Arabic \<and> \<not> ditch_non_Arabic then Inr (tagger file)
      else let text = read_text file
           in if ditch_non_Arabic then Inr (tagger (remove_non_Arabic text))
              else case mask_non_Arabic text of
                     (non_ar, ar_only) \<Rightarrow>
                       restore_non_Arabic (read_text (tagger ar_only)) non_ar)"

section \<open>Counting and pairing\<close>

text \<open>The number of replacements \<open>re.sub\<close> makes, which is what \<open>re.subn\<close> reports.\<close>

definition substitutions :: "atom list \<Rightarrow> ustr \<Rightarrow> nat" where
  "substitutions p s = length (filter (\<lambda>g. case g of Lit c \<Rightarrow> False | Match m \<Rightarrow> True) (scan p s))"

text \<open>
  The restoration the specification asks for, in its own words: the occurrences of the
  tagged placeholder are paired with the spans one to one, in the order of appearance, and
  each occurrence is replaced by its span. \<open>pair_up\<close> takes the scan of the tagged
  output and the spans; there is no result when a span or an occurrence is left over.
\<close>

fun pair_up :: "seg list \<Rightarrow> ustr list \<Rightarrow> ustr option" where
  "pair_up [] [] = Some []"
| "pair_up [] (a # as) = None"
| "pair_up (Lit c # gs) as = map_option (\<lambda>out. c # out) (pair_up gs as)"
| "pair_up (Match m # gs) [] = None"
| "pair_up (Match m # gs) (a # as) = map_option (\<lambda>out. a @ out) (pair_up gs as)"

text \<open>
  What line 149 puts for one piece of the scan of the tagged output: a slot \<open>{}\<close> for
  an occurrence of the tagged placeholder, the character itself otherwise.
\<close>

abbreviation slot :: "seg \<Rightarrow> ustr" where
  "slot \<equiv> (\<lambda>g. case g of Lit c \<Rightarrow> [c] | Match m \<Rightarrow> [lbrace, rbrace])"

text \<open>
  \<open>covers gs i\<close>: in the scan \<open>gs\<close> of a text, the character at index \<open>i\<close> of the
  text lies inside a match.
\<close>

fun covers :: "seg list \<Rightarrow> nat \<Rightarrow> bool" where
  "covers [] i = False"
| "covers (Lit c # gs) i = (case i of 0 \<Rightarrow> False | Suc j \<Rightarrow> covers gs j)"
| "covers (Match m # gs) i = (if i < length m then True else covers gs (i - length m))"

section \<open>Example texts\<close>

text \<open>The Arabic word of the segmentation scenario, as the segmenter splits it and whole.\<close>

definition kitab_plus_ta :: ustr where
  "kitab_plus_ta = [1603, 1578, 1575, 1576, plus_sign, ta_marbuta]"

definition kitaba :: ustr where
  "kitaba = [1603, 1578, 1575, 1576, ta_marbuta]"

text \<open>The document of the removal scenario: a Latin sentence, then an Arabic one.\<close>

definition marhaban_bialalam :: ustr where
  "marhaban_bialalam = [1605, 1585, 1581, 1576, 1575, 32, 1576, 1575, 1604, 1593, 1575, 1604, 1605]"

definition hello_world :: ustr where
  "hello_world = ascii ''Hello world. '' @ marhaban_bialalam"

text \<open>Six Latin letters, to build spans from.\<close>

definition abcdef :: ustr where
  "abcdef = ascii ''abcdef''"

text \<open>
  The Latin sentence of the removal scenario, and a tagged sentence that holds a closing
  brace.
\<close>

definition hello :: ustr where
  "hello = ascii ''Hello world.''"

definition brace_sentence :: ustr where
  "brace_sentence = ascii ''S/S }/PUNC E/E''"

abbreviation plus_ta :: "atom list" where
  "plus_ta \<equiv> literal [plus_sign, ta_marbuta]"

section \<open>Facts about the characters\<close>

lemmas char_defs = LF_def CR_def space_def hash_def dollar_def plus_sign_def at_sign_def
  bslash_def lbrace_def vbar_def rbrace_def mu_def ta_marbuta_def

section \<open>Patterns of one character\<close>

lemma match_len_One:
  "match_len [One p] s = (case s of [] \<Rightarrow> None | c # cs \<Rightarrow> if p c then Some 1 else None)"
  by (simp split: list.splits)

lemma scan_One: "scan [One p] s = map (\<lambda>c. if p c then Match [c] else Lit c) s"
  by (induction s) (simp_all add: match_len_One)

lemma re_sub_One: "re_sub [One p] r s = concat (map (\<lambda>c. if p c then r else [c]) s)"
  unfolding re_sub_def scan_One by (induction s) simp_all

lemma re_sub_One_append: "re_sub [One p] r (s @ t) = re_sub [One p] r s @ re_sub [One p] r t"
  by (simp add: re_sub_One)

lemma re_sub_One_id: "\<forall>c\<in>set s. \<not> p c \<Longrightarrow> re_sub [One p] r s = s"
  unfolding re_sub_One by (induction s) simp_all

lemma re_sub_One_delete: "re_sub [One p] [] s = filter (\<lambda>c. \<not> p c) s"
  unfolding re_sub_One by (induction s) simp_all

lemma set_re_sub_One: "set (re_sub [One p] r s) \<subseteq> set r \<union> {c \<in> set s. \<not> p c}"
  unfolding re_sub_One by (induction s) auto

section \<open>Segmentation: reconnect, then the split character\<close>

lemma match_len_plus_ta:
  "match_len plus_ta s =
     (case s of
        [] \<Rightarrow> None
      | a # t \<Rightarrow> (case t of
                   [] \<Rightarrow> None
                 | b # u \<Rightarrow> if a = plus_sign \<and> b = ta_marbuta then Some (Suc (Suc 0)) else None))"
  by (simp add: literal_def split: list.splits)

lemma scan_plus_ta_Nil: "scan plus_ta [] = []"
  by (simp add: match_len_plus_ta)

lemma scan_plus_ta_hit:
  "scan plus_ta (plus_sign # ta_marbuta # s) = Match [plus_sign, ta_marbuta] # scan plus_ta s"
  by (simp add: match_len_plus_ta)

lemma scan_plus_ta_miss:
  "x \<noteq> plus_sign \<or> s = [] \<or> hd s \<noteq> ta_marbuta \<Longrightarrow> scan plus_ta (x # s) = Lit x # scan plus_ta s"
  by (cases s) (auto simp add: match_len_plus_ta)

declare scan.simps [simp del]

lemma scan_plus_ta_append:
  "c \<noteq> ta_marbuta \<Longrightarrow> scan plus_ta (X @ c # rest) = scan plus_ta X @ scan plus_ta (c # rest)"
proof (induction X rule: induct_list012)
  case 1
  show ?case by (simp add: scan_plus_ta_Nil)
next
  case (2 x)
  then show ?case by (simp add: scan_plus_ta_miss scan_plus_ta_Nil)
next
  case (3 x y zs)
  show ?case
  proof (cases "x = plus_sign \<and> y = ta_marbuta")
    case True
    with 3 show ?thesis by (simp add: scan_plus_ta_hit)
  next
    case False
    then have "scan plus_ta (x # (y # zs) @ c # rest) = Lit x # scan plus_ta ((y # zs) @ c # rest)"
      and "scan plus_ta (x # y # zs) = Lit x # scan plus_ta (y # zs)"
      by (auto intro!: scan_plus_ta_miss)
    with 3 show ?thesis by simp
  qed
qed

lemma reconnect_append:
  "c \<noteq> ta_marbuta \<Longrightarrow>
   re_sub plus_ta r (X @ c # rest) = re_sub plus_ta r X @ re_sub plus_ta r (c # rest)"
  by (simp add: re_sub_def scan_plus_ta_append)

lemma reconnect_kitab:
  "re_sub plus_ta [ta_marbuta] (kitab_plus_ta @ Y) = kitaba @ re_sub plus_ta [ta_marbuta] Y"
proof -
  have "scan plus_ta (kitab_plus_ta @ Y) =
      [Lit 1603, Lit 1578, Lit 1575, Lit 1576, Match [plus_sign, ta_marbuta]] @ scan plus_ta Y"
  proof -
    have ne: "(1603::int) \<noteq> plus_sign" "(1578::int) \<noteq> plus_sign" "(1575::int) \<noteq> plus_sign"
      "(1576::int) \<noteq> plus_sign"
      by (simp_all add: plus_sign_def)
    show ?thesis
      unfolding kitab_plus_ta_def by (simp add: scan_plus_ta_hit scan_plus_ta_miss ne)
  qed
  then show ?thesis
    by (simp add: re_sub_def kitaba_def)
qed

lemma reconnect_around_kitab:
  "re_sub plus_ta [ta_marbuta] (X @ kitab_plus_ta @ Y) =
   re_sub plus_ta [ta_marbuta] X @ kitaba @ re_sub plus_ta [ta_marbuta] Y"
proof -
  have "X @ kitab_plus_ta @ Y = X @ 1603 # ([1578, 1575, 1576, plus_sign, ta_marbuta] @ Y)"
    by (simp add: kitab_plus_ta_def)
  moreover have "(1603::int) \<noteq> ta_marbuta" by (simp add: char_defs)
  ultimately have "re_sub plus_ta [ta_marbuta] (X @ kitab_plus_ta @ Y) =
      re_sub plus_ta [ta_marbuta] X @ re_sub plus_ta [ta_marbuta] (kitab_plus_ta @ Y)"
    using reconnect_append[of 1603 "[ta_marbuta]" X "[1578, 1575, 1576, plus_sign, ta_marbuta] @ Y"]
    by (simp add: kitab_plus_ta_def)
  then show ?thesis by (simp add: reconnect_kitab)
qed

lemma split_char_kitaba: "re_sub (literal [plus_sign]) sc kitaba = kitaba"
  by (simp add: literal_def re_sub_One kitaba_def char_defs)

lemma split_char_append:
  "re_sub (literal [c]) r (s @ t) = re_sub (literal [c]) r s @ re_sub (literal [c]) r t"
  by (simp add: literal_def re_sub_One)

lemma split_char_Cons:
  "re_sub (literal [plus_sign]) sc (x # s) =
     (if x = plus_sign then sc else [x]) @ re_sub (literal [plus_sign]) sc s"
  by (simp add: literal_def re_sub_One)

lemma reconnect_hit:
  "re_sub plus_ta r (plus_sign # ta_marbuta # s) = r @ re_sub plus_ta r s"
  by (simp add: re_sub_def scan_plus_ta_hit)

lemma reconnect_miss:
  "x \<noteq> plus_sign \<or> s = [] \<or> hd s \<noteq> ta_marbuta \<Longrightarrow>
   re_sub plus_ta r (x # s) = x # re_sub plus_ta r s"
  by (simp add: re_sub_def scan_plus_ta_miss)

lemma two_substitutions_one_pass:
  "re_sub (literal [plus_sign]) sc (re_sub plus_ta [ta_marbuta] t) = reconnect_then_split sc t"
proof (induction sc t rule: reconnect_then_split.induct)
  case (1 sc)
  have "re_sub plus_ta [ta_marbuta] [] = []"
    by (simp add: re_sub_def scan_plus_ta_Nil)
  then show ?case by (simp add: literal_def re_sub_One)
next
  case (2 sc c)
  have "re_sub plus_ta [ta_marbuta] [c] = [c]"
    by (simp add: re_sub_def scan_plus_ta_miss scan_plus_ta_Nil)
  then show ?case by (simp add: literal_def re_sub_One)
next
  case (3 sc c d s)
  have ne: "ta_marbuta \<noteq> plus_sign" by (simp add: char_defs)
  show ?case
  proof (cases "c = plus_sign \<and> d = ta_marbuta")
    case True
    with 3(1) ne show ?thesis by (simp add: reconnect_hit split_char_Cons)
  next
    case False
    then have "re_sub plus_ta [ta_marbuta] (c # d # s) = c # re_sub plus_ta [ta_marbuta] (d # s)"
      by (intro reconnect_miss) auto
    with False 3(2,3) show ?thesis by (auto simp add: split_char_Cons)
  qed
qed

lemma read_text_Cons: "c \<noteq> CR \<Longrightarrow> read_text (c # s) = c # read_text s"
  by (cases s) simp_all

lemma read_text_append:
  "c \<noteq> LF \<Longrightarrow> read_text (X @ c # rest) = read_text X @ read_text (c # rest)"
  by (induction X rule: read_text.induct) simp_all


lemma read_text_no_CR: "CR \<notin> set (read_text s)"
  by (induction s rule: read_text.induct) (simp_all add: char_defs)

lemma set_read_text: "set (read_text s) \<subseteq> insert LF (set s)"
  by (induction s rule: read_text.induct) auto

lemma set_reconnect_then_split: "set (reconnect_then_split sc t) \<subseteq> set sc \<union> set t"
  by (induction sc t rule: reconnect_then_split.induct) auto

lemma no_plus_left:
  "plus_sign \<notin> set sc \<Longrightarrow> plus_sign \<notin> set (reconnect_then_split sc t)"
  by (induction sc t rule: reconnect_then_split.induct) (auto simp add: char_defs)

lemma write_text_plain: "\<forall>c\<in>set t. \<not> surrogate c \<Longrightarrow> write_text t = Inr t"
  by (simp add: write_text_def list_ex_iff)

lemma escapes_None:
  "\<not> latin_letter d \<Longrightarrow> d \<noteq> bslash \<Longrightarrow> map_of escapes d = None"
  by (auto simp add: escapes_def latin_letter_def in_ranges_def bslash_def)

lemma parse_template_literal:
  "literal_template sc \<Longrightarrow> parse_template sc = Inr (map TChar sc)"
proof (induction sc rule: literal_template.induct)
  case 1
  show ?case by simp
next
  case (2 c)
  then show ?case by (simp add: add_parts_def)
next
  case (3 c d s)
  show ?case
  proof (cases "c = bslash")
    case True
    with 3 have d: "\<not> latin_letter d" "\<not> ascii_digit d" "d \<noteq> bslash" "literal_template s"
      by simp_all
    from d(1) have g: "d \<noteq> 103" by (auto simp add: latin_letter_def in_ranges_def)
    from d(2) have z: "d \<noteq> 48" by (auto simp add: ascii_digit_def)
    from 3(1)[OF True] d have "parse_template s = Inr (map TChar s)" by simp
    with True d g z show ?thesis by (simp add: escapes_None add_parts_def)
  next
    case False
    with 3 show ?thesis by (simp add: add_parts_def)
  qed
qed

lemma expand_template_literal: "expand_template (map TChar sc) m = sc"
  by (induction sc) (simp_all add: expand_template_def)

lemma re_sub_repl_literal:
  assumes "literal_template sc"
  shows "re_sub_repl p sc s = Inr (re_sub p sc s)"
proof -
  have "expand_template (map TChar sc) = (\<lambda>m. sc)"
    by (rule ext) (rule expand_template_literal)
  with assms show ?thesis
    by (simp add: re_sub_repl_def parse_template_literal re_sub_def)
qed

lemma literal_template_plain: "bslash \<notin> set sc \<Longrightarrow> literal_template sc"
  by (induction sc rule: literal_template.induct) auto

lemma add_parts_Inr: "add_parts ps r = Inr parts \<longleftrightarrow> (\<exists>qs. r = Inr qs \<and> parts = ps @ qs)"
  by (auto simp add: add_parts_def split: sum.splits)

lemma expand_template_append:
  "expand_template (ps @ qs) m = expand_template ps m @ expand_template qs m"
  by (simp add: expand_template_def)

lemma literal_template_Cons: "c \<noteq> bslash \<Longrightarrow> literal_template (c # cs) = literal_template cs"
  by (cases cs) simp_all

lemma parse_template_shrinks:
  "parse_template sc = Inr parts \<Longrightarrow>
   length (expand_template parts [x]) \<le> length sc
   \<and> (length (expand_template parts [x]) = length sc \<longrightarrow> literal_template sc)"
proof (induction "length sc" arbitrary: sc parts rule: less_induct)
  case less
  note IH = less.hyps
  show ?case
  proof (cases sc)
    case Nil
    with less.prems show ?thesis by (simp add: expand_template_def)
  next
    case (Cons c cs)
    show ?thesis
    proof (cases "c = bslash")
      case False
      with less.prems Cons obtain qs where q: "parse_template cs = Inr qs" "parts = [TChar c] @ qs"
        by (auto simp add: add_parts_Inr)
      from IH[of cs qs] Cons q(1)
      have "length (expand_template qs [x]) \<le> length cs
        \<and> (length (expand_template qs [x]) = length cs \<longrightarrow> literal_template cs)" by simp
      with False Cons q(2) show ?thesis
        by (simp add: expand_template_append literal_template_Cons) (simp add: expand_template_def)
    next
      case True
      show ?thesis
      proof (cases cs)
        case Nil
        with less.prems Cons True show ?thesis by simp
      next
        case (Cons d ds)
        have tail: "\<And>t qs. length t \<le> length ds \<Longrightarrow> parse_template t = Inr qs \<Longrightarrow>
            length (expand_template qs [x]) \<le> length t
            \<and> (length (expand_template qs [x]) = length t \<longrightarrow> literal_template t)"
          using IH \<open>sc = c # cs\<close> Cons by simp
        have one: "\<And>v. expand_template [TChar v] [x] = [v]" "expand_template [TGroup0] [x] = [x]"
          "\<And>v w. expand_template [TChar v, TChar w] [x] = [v, w]"
          by (simp_all add: expand_template_def)
        note p = less.prems[unfolded \<open>sc = c # cs\<close> True Cons]
        have len: "length sc = Suc (Suc (length ds))"
          using \<open>sc = c # cs\<close> Cons by simp
        have short: "length (expand_template parts [x]) < length sc \<Longrightarrow> ?thesis"
          by (simp add: \<open>sc = c # cs\<close>)
        show ?thesis
        proof (cases "d = 103")
          case g: True
          from p g obtain ns qs where n: "ds = 60 # ns"
            "parse_template (tl (dropWhile (\<lambda>x. x \<noteq> 62) ns)) = Inr qs" "parts = [TGroup0] @ qs"
            by (auto simp add: add_parts_Inr split: list.splits if_splits)
          have l: "length (tl (dropWhile (\<lambda>x. x \<noteq> 62) ns)) \<le> length ns"
            using length_dropWhile_le[of "\<lambda>x. x \<noteq> 62" ns] by simp
          with n(1) have "length (tl (dropWhile (\<lambda>x. x \<noteq> 62) ns)) \<le> length ds" by simp
          from tail[OF this n(2)]
          have "length (expand_template qs [x]) \<le> length (tl (dropWhile (\<lambda>x. x \<noteq> 62) ns))"
            by blast
          with l have "length (expand_template qs [x]) \<le> length ns" by linarith
          moreover have "expand_template parts [x] = x # expand_template qs [x]"
            using n(3) by (simp add: expand_template_def)
          ultimately show ?thesis using n(1) len by (intro short) simp
        next
          case ng: False
          show ?thesis
          proof (cases "d = 48")
            case z: True
            show ?thesis
            proof (cases ds)
              case Nil
              with p z len show ?thesis by (intro short) (auto simp add: expand_template_def)
            next
              case e: (Cons e es)
              show ?thesis
              proof (cases "octal_digit e")
                case False
                with p z e obtain qs where q: "parse_template ds = Inr qs" "parts = [TChar 0] @ qs"
                  by (auto simp add: add_parts_Inr)
                from tail[OF _ q(1)] q(2) len
                show ?thesis by (intro short) (auto simp add: expand_template_def)
              next
                case oe: True
                show ?thesis
                proof (cases es)
                  case Nil
                  with p z e oe len show ?thesis by (intro short) (auto simp add: expand_template_def)
                next
                  case f: (Cons f fs)
                  show ?thesis
                  proof (cases "octal_digit f")
                    case True
                    with p z e oe f obtain qs v where q: "parse_template fs = Inr qs"
                      "parts = [TChar v] @ qs"
                      by (auto simp add: add_parts_Inr)
                    from tail[OF _ q(1)] q(2) len e f
                    show ?thesis by (intro short) (auto simp add: expand_template_def)
                  next
                    case False
                    with p z e oe f obtain qs v where q: "parse_template es = Inr qs"
                      "parts = [TChar v] @ qs"
                      by (auto simp add: add_parts_Inr)
                    from tail[OF _ q(1)] q(2) len e f
                    show ?thesis by (intro short) (auto simp add: expand_template_def)
                  qed
                qed
              qed
            qed
          next
            case nz: False
            show ?thesis
            proof (cases "ascii_digit d")
              case True
              with p ng nz obtain e f fs qs v where q: "ds = e # f # fs" "parse_template fs = Inr qs"
                "parts = [TChar v] @ qs"
                by (auto simp add: add_parts_Inr split: list.splits if_splits)
              from tail[OF _ q(2)] q(1,3) len
              show ?thesis by (intro short) (auto simp add: expand_template_def)
            next
              case nd: False
              show ?thesis
              proof (cases "map_of escapes d")
                case (Some v)
                with p ng nz nd obtain qs where q: "parse_template ds = Inr qs" "parts = [TChar v] @ qs"
                  by (auto simp add: add_parts_Inr)
                from tail[OF _ q(1)] q(2) len
                show ?thesis by (intro short) (auto simp add: expand_template_def)
              next
                case None
                with p ng nz nd obtain qs where q: "\<not> latin_letter d" "parse_template ds = Inr qs"
                  "parts = [TChar bslash, TChar d] @ qs"
                  by (auto simp add: add_parts_Inr split: if_splits)
                from None have nb: "d \<noteq> bslash" by (auto simp add: escapes_def bslash_def)
                from tail[OF _ q(2)] q(1,3) nd nb \<open>sc = c # cs\<close> True Cons
                show ?thesis by (auto simp add: expand_template_def)
              qed
            qed
          qed
        qed
      qed
    qed
  qed
qed

lemma segment_literal_split:
  assumes "sc \<noteq> []" "literal_template sc" "\<forall>c\<in>set sc \<union> set raw. \<not> surrogate c"
  shows "segment True (Some sc) raw = Inr (reconnect_then_split sc (read_text raw))"
proof -
  have "\<not> surrogate LF" by (simp add: surrogate_def LF_def)
  with assms(3) have "\<forall>c\<in>set (reconnect_then_split sc (read_text raw)). \<not> surrogate c"
    using set_reconnect_then_split[of sc "read_text raw"] set_read_text[of raw] by blast
  then have "write_text (reconnect_then_split sc (read_text raw))
      = Inr (reconnect_then_split sc (read_text raw))"
    by (rule write_text_plain)
  with assms(1,2) show ?thesis
    by (simp add: segment_def re_sub_repl_literal two_substitutions_one_pass)
qed

lemma read_text_around_kitab:
  "read_text (X @ kitab_plus_ta @ Y) = read_text X @ kitab_plus_ta @ read_text Y"
proof -
  have "read_text (kitab_plus_ta @ Y) = kitab_plus_ta @ read_text Y"
    by (simp add: kitab_plus_ta_def read_text_Cons char_defs)
  moreover have "read_text (X @ 1603 # [1578, 1575, 1576, plus_sign, ta_marbuta] @ Y)
      = read_text X @ read_text (1603 # [1578, 1575, 1576, plus_sign, ta_marbuta] @ Y)"
    by (rule read_text_append) (simp add: LF_def)
  ultimately show ?thesis by (simp add: kitab_plus_ta_def)
qed

lemma one_pass_around_kitab:
  "reconnect_then_split sc (X @ kitab_plus_ta @ Y)
     = reconnect_then_split sc X @ kitaba @ reconnect_then_split sc Y"
  by (simp add: two_substitutions_one_pass[symmetric] reconnect_around_kitab split_char_append
      split_char_kitaba)

lemma segment_one_plus:
  "segment True (Some sc) [plus_sign] =
     (if sc = [] then write_text [plus_sign]
      else case re_sub_repl (literal [plus_sign]) sc [plus_sign] of
             Inl e \<Rightarrow> Inl e
           | Inr t \<Rightarrow> write_text t)"
proof -
  have "re_sub plus_ta [ta_marbuta] [plus_sign] = [plus_sign]"
    by (simp add: re_sub_def scan_plus_ta_miss scan_plus_ta_Nil)
  moreover have "read_text [plus_sign] = [plus_sign]"
    by (simp add: char_defs)
  ultimately show ?thesis by (simp add: segment_def Let_def)
qed

lemma write_text_cases: "write_text t = Inr u \<Longrightarrow> u = t"
  by (simp add: write_text_def split: if_splits)

lemma split_string_not_literal:
  assumes "\<not> literal_template sc \<or> list_ex surrogate sc"
  shows "segment True (Some sc) [plus_sign] \<noteq> Inr sc"
proof (cases "literal_template sc")
  case True
  with assms have s: "list_ex surrogate sc" by simp
  then have ne: "sc \<noteq> []" by auto
  have "re_sub (literal [plus_sign]) sc [plus_sign] = sc"
    by (simp add: literal_def re_sub_One)
  with True have "re_sub_repl (literal [plus_sign]) sc [plus_sign] = Inr sc"
    by (simp add: re_sub_repl_literal)
  with ne s show ?thesis by (simp add: segment_one_plus write_text_def)
next
  case False
  then have ne: "sc \<noteq> []" by auto
  from False have b: "bslash \<in> set sc" using literal_template_plain by blast
  have m: "scan (literal [plus_sign]) [plus_sign] = [Match [plus_sign]]"
    by (simp add: literal_def scan_One)
  show ?thesis
  proof (cases "parse_template sc")
    case (Inl e)
    with ne b show ?thesis by (simp add: segment_one_plus re_sub_repl_def)
  next
    case (Inr parts)
    from parse_template_shrinks[OF this, of plus_sign] False
    have "expand_template parts [plus_sign] \<noteq> sc" by auto
    moreover from Inr ne b m
    have "segment True (Some sc) [plus_sign] = write_text (expand_template parts [plus_sign])"
      by (simp add: segment_one_plus re_sub_repl_def)
    ultimately show ?thesis using write_text_cases[of "expand_template parts [plus_sign]" sc]
      by auto
  qed
qed

text \<open>
  C1, as amended. Let the reconnect flag be set and the split string \<open>sc\<close> be non-empty.
  If \<open>sc\<close> is a template that stands for itself, which every string without backslash
  is, and neither \<open>sc\<close> nor the segmenter's file holds a surrogate, the flow does not
  fail, and the output is the text read from the segmenter's file in which every \<open>+\<close>
  followed by the ta marbuta has been dropped before every remaining \<open>+\<close> was replaced
  by \<open>sc\<close>, taken literally; no \<open>+\<close> is left unless \<open>sc\<close> brings one. Wherever the
  segmenter wrote the word \<open>kitab_plus_ta\<close> the output holds the whole word
  \<open>kitaba\<close>, with nothing between the stem and the ta marbuta, what stands before and
  after it being processed on its own. The condition on \<open>sc\<close> cannot be dropped: for
  any other split string the flow, run on the text \<open>+\<close>, fails or gives a text other
  than \<open>sc\<close>.
\<close>

theorem segment_reconnect_then_split:
  assumes "sc \<noteq> []"
  shows "(literal_template sc \<and> (\<forall>c\<in>set sc \<union> set raw. \<not> surrogate c) \<longrightarrow>
            segment True (Some sc) raw = Inr (reconnect_then_split sc (read_text raw))
          \<and> (\<forall>pre post. raw = pre @ kitab_plus_ta @ post \<longrightarrow>
                segment True (Some sc) raw =
                  Inr (reconnect_then_split sc (read_text pre) @ kitaba
                       @ reconnect_then_split sc (read_text post))))
       \<and> (plus_sign \<notin> set sc \<longrightarrow> plus_sign \<notin> set (reconnect_then_split sc (read_text raw)))
       \<and> (\<not> literal_template sc \<or> list_ex surrogate sc \<longrightarrow>
            segment True (Some sc) [plus_sign] \<noteq> Inr sc)"
proof (intro conjI impI allI)
  assume h: "literal_template sc \<and> (\<forall>c\<in>set sc \<union> set raw. \<not> surrogate c)"
  with assms show s: "segment True (Some sc) raw = Inr (reconnect_then_split sc (read_text raw))"
    by (intro segment_literal_split) simp_all
  show "segment True (Some sc) raw =
          Inr (reconnect_then_split sc (read_text pre) @ kitaba
               @ reconnect_then_split sc (read_text post))"
    if "raw = pre @ kitab_plus_ta @ post" for pre post
    using s that by (simp add: read_text_around_kitab one_pass_around_kitab)
next
  show "plus_sign \<notin> set (reconnect_then_split sc (read_text raw))" if "plus_sign \<notin> set sc"
    using that by (rule no_plus_left)
next
  show "segment True (Some sc) [plus_sign] \<noteq> Inr sc"
    if "\<not> literal_template sc \<or> list_ex surrogate sc"
    using that by (rule split_string_not_literal)
qed

theorem segment_reconnect_then_split_witness:
  "[at_sign] \<noteq> [] \<and> literal_template [at_sign]
   \<and> \<not> list_ex surrogate ([at_sign] @ [97, CR, LF, plus_sign] @ kitab_plus_ta @ [plus_sign, 98])
   \<and> plus_sign \<notin> set [at_sign]
   \<and> segment True (Some [at_sign]) ([97, CR, LF, plus_sign] @ kitab_plus_ta @ [plus_sign, 98])
       = Inr ([97, LF, at_sign] @ kitaba @ [at_sign, 98])
   \<and> plus_sign \<notin> set ([97, LF, at_sign] @ kitaba @ [at_sign, 98])
   \<and> [bslash, 110] \<noteq> [] \<and> \<not> literal_template [bslash, 110]
   \<and> segment True (Some [bslash, 110]) [plus_sign] \<noteq> Inr [bslash, 110]"
proof -
  let ?raw = "[97, CR, LF, plus_sign] @ kitab_plus_ta @ [plus_sign, 98]"
  have h: "[at_sign] \<noteq> []" "literal_template [at_sign]"
    "\<not> list_ex surrogate ([at_sign] @ ?raw)" "plus_sign \<notin> set [at_sign]"
    by code_simp+
  from h(3) have g: "\<forall>c\<in>set [at_sign] \<union> set ?raw. \<not> surrogate c"
    by (simp add: list_ex_iff)
  have e: "reconnect_then_split [at_sign] (read_text ?raw) = [97, LF, at_sign] @ kitaba @ [at_sign, 98]"
    by code_simp
  from segment_reconnect_then_split [OF h(1), of ?raw] h(2) g h(4) e
  have 1: "segment True (Some [at_sign]) ?raw = Inr ([97, LF, at_sign] @ kitaba @ [at_sign, 98])"
    "plus_sign \<notin> set ([97, LF, at_sign] @ kitaba @ [at_sign, 98])"
    by simp_all
  have n: "[bslash, 110] \<noteq> []" "\<not> literal_template [bslash, 110]"
    by code_simp+
  from segment_reconnect_then_split [OF n(1), of "[]"] n(2)
  have 2: "segment True (Some [bslash, 110]) [plus_sign] \<noteq> Inr [bslash, 110]"
    by blast
  from h 1 n 2 show ?thesis by blast
qed

text \<open>
  The claim as stated fails in two ways. After the word \<open>kitab_plus_ta\<close> the segmenter
  may have split off a suffix: the \<open>+\<close> that follows the ta marbuta is replaced like any
  other, and an \<open>@\<close> stands next to the reconnected ta marbuta. And the split string is
  not taken literally: it is a replacement template of \<open>re.sub\<close>, so that a lone
  backslash is rejected, also when the text holds no \<open>+\<close> to replace, and \<open>\n\<close>
  inserts a line feed; a split string with a surrogate cannot be written to the file.
\<close>

theorem split_string_is_a_template_counterexample:
  "segment True (Some [at_sign]) (kitab_plus_ta @ [plus_sign, 1607, 1575])
     = Inr (kitaba @ [at_sign, 1607, 1575])
   \<and> segment True (Some [bslash]) kitab_plus_ta = Inl Bad_template
   \<and> segment True (Some [bslash, 110]) (kitab_plus_ta @ [plus_sign, 1607, 1575])
       = Inr (kitaba @ [LF, 1607, 1575])
   \<and> segment True (Some [56575]) (kitab_plus_ta @ [plus_sign, 1607, 1575])
       = Inl UnicodeEncodeError"
  by code_simp

section \<open>Segmentation: no option requested\<close>

text \<open>
  C6. With the reconnect flag unset and the default split character \<open>+\<close>, the guard of
  the post-processing is false: the output file is neither read nor rewritten, and its
  content stays what the segmenter wrote.
\<close>

theorem segment_default_untouched:
  "segment False (Some [plus_sign]) raw = Inr raw"
  by (simp add: segment_def)

section \<open>Texts without a match\<close>

lemma scan_no_match: "re_findall p s = [] \<Longrightarrow> scan p s = map Lit s"
proof (induction p s rule: scan.induct)
  case (1 p)
  then show ?case by (cases "match_len p []") (simp_all add: re_findall_def scan.simps)
next
  case (2 p c cs)
  from 2(4) have m: "match_len p (c # cs) = None"
    by (auto simp add: re_findall_def scan.simps split: option.splits nat.splits)
  with 2(4) have "re_findall p cs = []"
    by (simp add: re_findall_def scan.simps)
  with 2(1) m show ?case by (simp add: scan.simps)
qed

lemma re_sub_no_match: "re_findall p s = [] \<Longrightarrow> re_sub p r s = s"
  by (simp add: re_sub_def scan_no_match comp_def)

section \<open>Stripping and lines\<close>

lemma set_join: "set (join sep ls) \<subseteq> set sep \<union> \<Union> (set ` set ls)"
  by (induction sep ls rule: join.induct) auto

lemma set_strip: "set (strip s) \<subseteq> set s"
  by (auto simp add: strip_def dest!: set_dropWhileD)

lemma last_dropWhile_keep: "dropWhile P xs \<noteq> [] \<Longrightarrow> last (dropWhile P xs) = last xs"
  by (induction xs) auto

lemma strip_ends:
  assumes "strip s \<noteq> []"
  shows "\<not> py_space (hd (strip s))" and "\<not> py_space (last (strip s))"
proof -
  let ?t = "dropWhile py_space s"
  let ?u = "dropWhile py_space (rev ?t)"
  from assms have u: "?u \<noteq> []" by (simp add: strip_def)
  have t: "?t \<noteq> []"
  proof
    assume "?t = []"
    then have "?u = []" by (simp only: rev.simps dropWhile.simps)
    with u show False by blast
  qed
  have "last (strip s) = hd ?u" using u by (simp add: strip_def last_rev)
  then show "\<not> py_space (last (strip s))" using hd_dropWhile[OF u] by simp
  have "hd (strip s) = last ?u" using u by (simp add: strip_def hd_rev)
  also have "\<dots> = last (rev ?t)" using u by (rule last_dropWhile_keep)
  also have "\<dots> = hd ?t" using t by (simp add: last_rev)
  finally show "\<not> py_space (hd (strip s))" using hd_dropWhile[OF t] by simp
qed

lemma strip_fixed: "s = [] \<or> (\<not> py_space (hd s) \<and> \<not> py_space (last s)) \<Longrightarrow> strip s = s"
proof (cases s)
  case Nil
  then show ?thesis by (simp add: strip_def)
next
  case (Cons a t)
  assume "s = [] \<or> (\<not> py_space (hd s) \<and> \<not> py_space (last s))"
  with Cons have h: "\<not> py_space (hd s)" "\<not> py_space (last s)" by auto
  from h(1) Cons have 1: "dropWhile py_space s = s" by simp
  from Cons have "rev s \<noteq> []" by simp
  then obtain b u where r: "rev s = b # u" by (cases "rev s") auto
  then have "b = last s" using Cons by (metis hd_rev list.sel(1) list.distinct(1))
  with h(2) have "dropWhile py_space (b # u) = b # u" by simp
  then have 2: "dropWhile py_space (rev s) = rev s" by (simp only: r)
  show ?thesis by (simp add: strip_def 1 2)
qed

lemma strip_idem: "strip (strip s) = strip s"
  using strip_ends[of s] strip_fixed[of "strip s"] by blast

lemma lines_from_plain:
  "\<forall>c\<in>set l. \<not> line_break c \<Longrightarrow> lines_from acc (l @ rest) = lines_from (acc @ l) rest"
  by (induction l arbitrary: acc) simp_all

lemma line_break_LF: "line_break LF"
  by (simp add: line_break_def in_ranges_def LF_def)

lemma lines_from_LF: "lines_from acc (LF # s) = acc # lines_from [] s"
  by (cases s) (simp_all add: line_break_LF, simp_all add: LF_def CR_def)

lemma lines_from_join:
  "\<forall>e\<in>set ls. e \<noteq> [] \<and> (\<forall>c\<in>set e. \<not> line_break c) \<Longrightarrow> lines_from [] (join [LF] ls) = ls"
proof (induction ls rule: induct_list012)
  case 1
  show ?case by simp
next
  case (2 x)
  then show ?case using lines_from_plain[of x "[]" "[]"] by simp
next
  case (3 x y ys)
  then have ih: "lines_from [] (join [LF] (y # ys)) = y # ys" by simp
  from 3 have x: "\<forall>c\<in>set x. \<not> line_break c" by simp
  have "lines_from [] (join [LF] (x # y # ys)) = lines_from x (LF # join [LF] (y # ys))"
    using lines_from_plain[OF x, of "[]" "LF # join [LF] (y # ys)"] by simp
  also have "\<dots> = x # lines_from [] (join [LF] (y # ys))"
    by (rule lines_from_LF)
  finally show ?case using ih by simp
qed


lemma lines_from_chars:
  "l \<in> set (lines_from acc s) \<Longrightarrow> set l \<subseteq> set acc \<union> set s"
proof (induction acc s arbitrary: l rule: lines_from.induct)
  case (1 acc)
  then show ?case by (simp split: if_splits)
next
  case (2 acc c cs)
  show ?case
  proof (cases "line_break c")
    case False
    with 2(4)[OF False] 2(5) show ?thesis by auto
  next
    case True
    show ?thesis
    proof (cases cs)
      case Nil
      with True 2(5) show ?thesis by auto
    next
      case (Cons d ds)
      show ?thesis
      proof (cases "c = CR \<and> d = LF")
        case c: True
        from 2(5) True Cons c have "l = acc \<or> l \<in> set (lines_from [] ds)" by simp
        with 2(2)[OF True Cons c] Cons show ?thesis by auto
      next
        case c: False
        from 2(5) True Cons c have "l = acc \<or> l \<in> set (lines_from [] cs)" by auto
        with 2(3)[OF True Cons c] show ?thesis by auto
      qed
    qed
  qed
qed

lemma lines_from_no_break:
  "l \<in> set (lines_from acc s) \<Longrightarrow> \<forall>c\<in>set acc. \<not> line_break c \<Longrightarrow> \<forall>c\<in>set l. \<not> line_break c"
proof (induction acc s arbitrary: l rule: lines_from.induct)
  case (1 acc)
  then show ?case by (simp split: if_splits)
next
  case (2 acc c cs)
  show ?case
  proof (cases "line_break c")
    case False
    with 2(4)[OF False, of l] 2(5,6) show ?thesis by auto
  next
    case True
    show ?thesis
    proof (cases cs)
      case Nil
      with True 2(5,6) show ?thesis by auto
    next
      case (Cons d ds)
      show ?thesis
      proof (cases "c = CR \<and> d = LF")
        case c: True
        from 2(5) True Cons c have "l = acc \<or> l \<in> set (lines_from [] ds)" by simp
        with 2(2)[OF True Cons c, of l] 2(6) show ?thesis by auto
      next
        case c: False
        from 2(5) True Cons c have "l = acc \<or> l \<in> set (lines_from [] cs)" by auto
        with 2(3)[OF True Cons c, of l] 2(6) show ?thesis by auto
      qed
    qed
  qed
qed


section \<open>Removal mode\<close>

lemma stripped_lines_props:
  assumes "e \<in> set (stripped_lines s)"
  shows "e \<noteq> []" "strip e = e" "\<forall>c\<in>set e. \<not> line_break c" "set e \<subseteq> set s"
proof -
  from assms obtain l where l: "l \<in> set (splitlines s)" "e = strip l" "strip l \<noteq> []"
    by (auto simp add: stripped_lines_def)
  show "e \<noteq> []" using l by simp
  show "strip e = e" using l by (simp add: strip_idem)
  have "\<forall>c\<in>set l. \<not> line_break c"
    using l(1) lines_from_no_break[of l "[]" s] by (simp add: splitlines_def)
  then show "\<forall>c\<in>set e. \<not> line_break c" using l(2) set_strip[of l] by auto
  have "set l \<subseteq> set s" using l(1) lines_from_chars[of l "[]" s] by (simp add: splitlines_def)
  then show "set e \<subseteq> set s" using l(2) set_strip[of l] by auto
qed

lemma splitlines_join_stripped:
  "splitlines (join [LF] (stripped_lines s)) = stripped_lines s"
  unfolding splitlines_def
  by (rule lines_from_join) (auto dest: stripped_lines_props)

lemma remove_non_Arabic_eq:
  "remove_non_Arabic text =
     join [LF] (stripped_lines (filter (\<lambda>c. \<not> stray_symbol c) (re_sub non_ar_regex [LF] text)))"
  by (simp add: remove_non_Arabic_def re_sub_One_delete)

lemma not_stray_LF: "\<not> stray_symbol LF"
  by (simp add: stray_symbol_def char_defs)

lemma remove_non_Arabic_no_stray:
  assumes c: "c \<in> set (remove_non_Arabic text)"
  shows "\<not> stray_symbol c"
proof -
  let ?t = "filter (\<lambda>c. \<not> stray_symbol c) (re_sub non_ar_regex [LF] text)"
  from c set_join[of "[LF]" "stripped_lines ?t"]
  have "c = LF \<or> (\<exists>e\<in>set (stripped_lines ?t). c \<in> set e)"
    by (auto simp add: remove_non_Arabic_eq)
  then show ?thesis
  proof
    assume "c = LF" then show ?thesis by (simp add: not_stray_LF)
  next
    assume "\<exists>e\<in>set (stripped_lines ?t). c \<in> set e"
    then have "c \<in> set ?t" using stripped_lines_props(4) by blast
    then show ?thesis by simp
  qed
qed

text \<open>
  C4. In removal mode the text written to \<open>temp.txt\<close> holds none of the characters
  \<open>#\<close>, \<open>|\<close> and \<open>$\<close>, and each of its lines (as \<open>splitlines\<close> cuts them) is
  non-empty and equal to its own \<open>strip()\<close>: no blank line, no leading or trailing
  whitespace.
\<close>

theorem removal_output_clean:
  "(\<forall>c\<in>set (remove_non_Arabic text). c \<noteq> hash \<and> c \<noteq> vbar \<and> c \<noteq> dollar)
   \<and> (\<forall>line\<in>set (splitlines (remove_non_Arabic text)). line \<noteq> [] \<and> strip line = line)"
proof (intro conjI ballI)
  fix c assume "c \<in> set (remove_non_Arabic text)"
  then have "\<not> stray_symbol c" by (rule remove_non_Arabic_no_stray)
  then show "c \<noteq> hash" "c \<noteq> vbar" "c \<noteq> dollar" by (simp_all add: stray_symbol_def)
next
  fix line assume "line \<in> set (splitlines (remove_non_Arabic text))"
  then have l: "line \<in> set (stripped_lines (filter (\<lambda>c. \<not> stray_symbol c) (re_sub non_ar_regex [LF] text)))"
    by (simp add: remove_non_Arabic_eq splitlines_join_stripped)
  show "line \<noteq> []" "strip line = line"
    using stripped_lines_props(1,2)[OF l] by simp_all
qed

theorem removal_output_clean_witness:
  "remove_non_Arabic [36, 97, 35, 10, 32, 10, 124, 98, 32] = [97, 10, 98]
   \<and> (97::int) \<in> set [97, 10, 98]
   \<and> (97::int) \<noteq> hash \<and> (97::int) \<noteq> vbar \<and> (97::int) \<noteq> dollar
   \<and> [98] \<in> set (splitlines [97, 10, 98])
   \<and> [98::int] \<noteq> [] \<and> strip [98] = [98]"
proof -
  let ?t = "[36, 97, 35, 10, 32, 10, 124, 98, 32] :: ustr"
  have e: "remove_non_Arabic ?t = [97, 10, 98]"
    by code_simp
  have m: "(97::int) \<in> set [97, 10, 98]" by simp
  have l: "[98] \<in> set (splitlines [97, 10, 98])"
    by code_simp
  from removal_output_clean [of ?t] e m l
  have "(97::int) \<noteq> hash \<and> (97::int) \<noteq> vbar \<and> (97::int) \<noteq> dollar"
    and "[98::int] \<noteq> [] \<and> strip [98] = [98]"
    by (simp_all only:) blast+
  with e m l show ?thesis by blast
qed

text \<open>
  C8. In the document \<open>Hello world.\<close> followed by a space and the Arabic sentence, one
  span is located, the Latin sentence \<open>Hello world.\<close>; the text written to
  \<open>temp.txt\<close> in removal mode is the Arabic sentence alone, and that is what the tagger
  is run on, whatever \<open>only_Arabic\<close> is.
\<close>

theorem ditch_hello_world:
  "re_findall non_ar_regex hello_world = [ascii ''Hello world.'']
   \<and> remove_non_Arabic hello_world = marhaban_bialalam
   \<and> POS_tag tagger only_Arabic True hello_world = Inr (tagger marhaban_bialalam)"
proof -
  have 1: "re_findall non_ar_regex hello_world = [ascii ''Hello world.'']" by code_simp
  have 2: "remove_non_Arabic hello_world = marhaban_bialalam" by code_simp
  have 3: "read_text hello_world = hello_world" by code_simp
  show ?thesis using 1 2 by (simp add: POS_tag_def 3)
qed

lemma filter_re_sub:
  "filter P (re_sub p r s) =
     concat (map (\<lambda>g. case g of Lit c \<Rightarrow> (if P c then [c] else []) | Match m \<Rightarrow> filter P r) (scan p s))"
  unfolding re_sub_def filter_concat map_map comp_def
  by (rule arg_cong[where f = concat], rule map_cong) (auto split: seg.splits)

text \<open>
  C10. In removal mode the deletion of \<open>#\<close>, \<open>|\<close> and \<open>$\<close> runs over the whole
  document: every character outside the located spans is dropped when it is one of the
  three, while each span becomes a newline. In a document where no span is located the
  three characters are deleted all the same, so a document that holds one of them is not
  passed on as it is.
\<close>

theorem stray_symbols_deleted_everywhere:
  "remove_non_Arabic text =
     join [LF] (stripped_lines (concat (map
        (\<lambda>g. case g of Lit c \<Rightarrow> (if stray_symbol c then [] else [c]) | Match m \<Rightarrow> [LF])
        (scan non_ar_regex text))))
   \<and> (re_findall non_ar_regex text = [] \<longrightarrow>
        remove_non_Arabic text = join [LF] (stripped_lines (filter (\<lambda>c. \<not> stray_symbol c) text))
        \<and> (\<forall>c\<in>set text. stray_symbol c \<longrightarrow>
               c \<notin> set (remove_non_Arabic text) \<and> remove_non_Arabic text \<noteq> text))"
proof (intro conjI impI ballI)
  have "(\<lambda>g. case g of Lit c \<Rightarrow> (if \<not> stray_symbol c then [c] else []) | Match m \<Rightarrow> filter (\<lambda>c. \<not> stray_symbol c) [LF])
      = (\<lambda>g. case g of Lit c \<Rightarrow> (if stray_symbol c then [] else [c]) | Match m \<Rightarrow> [LF])"
    by (auto simp add: fun_eq_iff not_stray_LF split: seg.splits)
  then show "remove_non_Arabic text =
     join [LF] (stripped_lines (concat (map
        (\<lambda>g. case g of Lit c \<Rightarrow> (if stray_symbol c then [] else [c]) | Match m \<Rightarrow> [LF])
        (scan non_ar_regex text))))"
    by (simp only: remove_non_Arabic_eq filter_re_sub)
next
  assume "re_findall non_ar_regex text = []"
  then show "remove_non_Arabic text = join [LF] (stripped_lines (filter (\<lambda>c. \<not> stray_symbol c) text))"
    by (simp add: remove_non_Arabic_eq re_sub_no_match)
next
  fix c assume c: "c \<in> set text" "stray_symbol c"
  show "c \<notin> set (remove_non_Arabic text)"
    using c(2) remove_non_Arabic_no_stray by blast
  then show "remove_non_Arabic text \<noteq> text" using c(1) by auto
qed

theorem stray_symbols_deleted_everywhere_witness:
  "re_findall non_ar_regex [1605, 1585, 1581, 1576, 1575, 32, 35, 32, 1576, 1575, 1604, 1593, 1575, 1604, 1605] = []
   \<and> (35::int) \<in> set [1605, 1585, 1581, 1576, 1575, 32, 35, 32, 1576, 1575, 1604, 1593, 1575, 1604, 1605]
   \<and> stray_symbol 35
   \<and> remove_non_Arabic [1605, 1585, 1581, 1576, 1575, 32, 35, 32, 1576, 1575, 1604, 1593, 1575, 1604, 1605]
       = [1605, 1585, 1581, 1576, 1575, 32, 32, 1576, 1575, 1604, 1593, 1575, 1604, 1605]
   \<and> remove_non_Arabic [1605, 1585, 1581, 1576, 1575, 32, 35, 32, 1576, 1575, 1604, 1593, 1575, 1604, 1605]
       \<noteq> [1605, 1585, 1581, 1576, 1575, 32, 35, 32, 1576, 1575, 1604, 1593, 1575, 1604, 1605]"
proof -
  let ?t = "[1605, 1585, 1581, 1576, 1575, 32, 35, 32, 1576, 1575, 1604, 1593, 1575, 1604, 1605] :: ustr"
  have f: "re_findall non_ar_regex ?t = []" by code_simp
  have m: "(35::int) \<in> set ?t" by simp
  have y: "stray_symbol 35" by code_simp
  have e: "remove_non_Arabic ?t = [1605, 1585, 1581, 1576, 1575, 32, 32, 1576, 1575, 1604, 1593, 1575, 1604, 1605]"
    by code_simp
  from stray_symbols_deleted_everywhere [of ?t] f m y
  have "remove_non_Arabic ?t \<noteq> ?t" by blast
  with f m y e show ?thesis by blast
qed

section \<open>The shape of a non-Arabic span\<close>

lemma backoff_Some:
  "backoff f s n k = Some len \<Longrightarrow>
   \<exists>j l. n \<le> j \<and> j \<le> k \<and> f (drop j s) = Some l \<and> len = j + l"
proof (induction k)
  case 0
  then show ?case by (auto split: if_splits)
next
  case (Suc k)
  show ?case
  proof (cases "f (drop (Suc k) s)")
    case None
    with Suc.prems have "backoff f s n k = Some len" by (simp split: if_splits)
    from Suc.IH[OF this] obtain j l where "n \<le> j" "j \<le> k" "f (drop j s) = Some l" "len = j + l"
      by blast
    then have "n \<le> j \<and> j \<le> Suc k \<and> f (drop j s) = Some l \<and> len = j + l" by simp
    then show ?thesis by blast
  next
    case (Some l)
    with Suc.prems have "n \<le> Suc k" "len = Suc k + l" by (simp_all split: if_splits)
    with Some show ?thesis by blast
  qed
qed

lemma backoff_first:
  "n \<le> j \<Longrightarrow> j \<le> k \<Longrightarrow> f (drop j s) = Some l \<Longrightarrow>
   (\<forall>i. j < i \<and> i \<le> k \<longrightarrow> f (drop i s) = None) \<Longrightarrow> backoff f s n k = Some (j + l)"
proof (induction k)
  case 0
  then show ?case by simp
next
  case (Suc k)
  show ?case
  proof (cases "j = Suc k")
    case True
    with Suc.prems show ?thesis by simp
  next
    case False
    with Suc.prems have "j \<le> k" "f (drop (Suc k) s) = None" by auto
    moreover from Suc.prems have "\<not> Suc k < n" by simp
    ultimately show ?thesis using Suc by simp
  qed
qed

lemma match_len_tail:
  "match_len [One not_newline, One end_char] t =
     (case t of
        [] \<Rightarrow> None
      | b # u \<Rightarrow> (case u of
                   [] \<Rightarrow> None
                 | c # v \<Rightarrow> if not_newline b \<and> end_char c then Some (Suc (Suc 0)) else None))"
  by (simp split: list.splits)

lemma match_len_non_ar:
  "match_len non_ar_regex s =
     backoff (match_len [One not_newline, One end_char]) s 6 (length (takeWhile run_char s))"
  by (simp add: non_ar_regex_def)

lemma non_ar_match_shape:
  assumes "match_len non_ar_regex s = Some len"
  shows "\<exists>xs b c. take len s = xs @ [b, c] \<and> 6 \<le> length xs \<and> (\<forall>x\<in>set xs. run_char x)
                 \<and> not_newline b \<and> end_char c"
proof -
  let ?k = "length (takeWhile run_char s)"
  from assms obtain j l where j: "6 \<le> j" "j \<le> ?k"
      and t: "match_len [One not_newline, One end_char] (drop j s) = Some l" and len: "len = j + l"
    using backoff_Some[of "match_len [One not_newline, One end_char]" s 6 ?k len]
    by (auto simp add: match_len_non_ar)
  from t obtain b c v where d: "drop j s = b # c # v" and bc: "not_newline b" "end_char c"
      and l: "l = 2"
    by (auto simp add: match_len_tail split: list.splits if_splits)
  have s: "s = take j s @ b # c # v" using d by (metis append_take_drop_id)
  have jl: "j \<le> length s" using j(2) length_takeWhile_le[of run_char s] by simp
  then have lt: "length (take j s) = j" by simp
  have "take len s = take j s @ [b, c]"
  proof -
    have "take len s = take (j + 2) (take j s @ b # c # v)" using s len l by simp
    also have "\<dots> = take j s @ [b, c]" using lt by simp
    finally show ?thesis .
  qed
  moreover have "\<forall>x\<in>set (take j s). run_char x"
  proof -
    have "take j s = take j (takeWhile run_char s)"
      using j(2) by (metis append_eq_conv_conj takeWhile_dropWhile_id take_all take_append
          diff_is_0_eq' take_0 append_Nil2 length_take min.absorb2 order_refl)
    then show ?thesis by (metis in_set_takeD set_takeWhileD)
  qed
  ultimately show ?thesis using j(1) lt bc by (metis)
qed


lemma re_findall_Nil: "re_findall p [] = (case match_len p [] of None \<Rightarrow> [] | Some _ \<Rightarrow> [[]])"
  by (simp add: re_findall_def scan.simps split: option.splits)

lemma re_findall_Cons:
  "re_findall p (c # cs) =
     (case match_len p (c # cs) of
        None \<Rightarrow> re_findall p cs
      | Some 0 \<Rightarrow> [] # re_findall p cs
      | Some (Suc n) \<Rightarrow> (c # take n cs) # re_findall p (drop n cs))"
  by (simp add: re_findall_def scan.simps split: option.splits nat.splits)

lemma re_findall_is_match:
  "m \<in> set (re_findall p s) \<Longrightarrow> \<exists>t len. match_len p t = Some len \<and> m = take len t"
proof (induction p s rule: scan.induct)
  case (1 p)
  show ?case
  proof (cases "match_len p []")
    case None
    with 1 show ?thesis by (simp add: re_findall_Nil)
  next
    case (Some u)
    with 1 have "m = []" by (simp add: re_findall_Nil)
    with Some have "match_len p [] = Some u \<and> m = take u []" by simp
    then show ?thesis by blast
  qed
next
  case (2 p c cs)
  show ?case
  proof (cases "match_len p (c # cs)")
    case None
    with 2(4) have "m \<in> set (re_findall p cs)" by (simp add: re_findall_Cons)
    with 2(1)[OF None] show ?thesis .
  next
    case (Some len)
    show ?thesis
    proof (cases len)
      case 0
      with Some 2(4) have "m = [] \<or> m \<in> set (re_findall p cs)" by (simp add: re_findall_Cons)
      then show ?thesis
      proof
        assume "m = []"
        then have "match_len p (c # cs) = Some 0 \<and> m = take 0 (c # cs)" using Some 0 by simp
        then show ?thesis by blast
      next
        assume "m \<in> set (re_findall p cs)"
        with 2(2)[OF Some 0] show ?thesis .
      qed
    next
      case (Suc n)
      with Some 2(4) have "m = c # take n cs \<or> m \<in> set (re_findall p (drop n cs))"
        by (simp add: re_findall_Cons)
      then show ?thesis
      proof
        assume "m = c # take n cs"
        then have "match_len p (c # cs) = Some (Suc n) \<and> m = take (Suc n) (c # cs)"
          using Some Suc by simp
        then show ?thesis by blast
      next
        assume "m \<in> set (re_findall p (drop n cs))"
        with 2(3)[OF Some Suc] show ?thesis .
      qed
    qed
  qed
qed

lemma non_ar_span_shape:
  assumes "m \<in> set (re_findall non_ar_regex text)"
  shows "\<exists>xs b c. m = xs @ [b, c] \<and> 6 \<le> length xs \<and> (\<forall>x\<in>set xs. run_char x)
                 \<and> not_newline b \<and> end_char c"
proof -
  from re_findall_is_match[OF assms] obtain t len
    where "match_len non_ar_regex t = Some len" "m = take len t" by blast
  with non_ar_match_shape[of t len] show ?thesis by simp
qed

lemma non_ar_span_length: "m \<in> set (re_findall non_ar_regex text) \<Longrightarrow> 8 \<le> length m"
  using non_ar_span_shape[of m "text"] by auto

lemma non_ar_whole:
  assumes xs: "6 \<le> length xs" "\<forall>x\<in>set xs. run_char x" and bc: "not_newline b" "end_char c"
  shows "match_len non_ar_regex (xs @ [b, c]) = Some (length xs + 2)"
proof -
  let ?s = "xs @ [b, c]"
  let ?f = "match_len [One not_newline, One end_char]"
  let ?k = "length (takeWhile run_char ?s)"
  have k1: "length xs \<le> ?k" using xs(2) by (simp add: takeWhile_append2)
  have j: "?f (drop (length xs) ?s) = Some 2" using bc by (simp add: match_len_tail)
  have late: "\<forall>i. length xs < i \<and> i \<le> ?k \<longrightarrow> ?f (drop i ?s) = None"
  proof (intro allI impI)
    fix i assume i: "length xs < i \<and> i \<le> ?k"
    then obtain d where d: "i = length xs + Suc d" by (metis less_iff_Suc_add add_Suc_right)
    have "drop i ?s = drop (Suc d) [b, c]" unfolding d by simp
    then have "length (drop i ?s) \<le> 1" by simp
    then show "?f (drop i ?s) = None"
      by (cases "drop i ?s"; cases "tl (drop i ?s)") (auto simp add: match_len_tail)
  qed
  from backoff_first[of 6 "length xs" ?k ?f ?s 2, OF xs(1) k1 j late]
  show ?thesis by (simp add: match_len_non_ar)
qed

lemma match_len_non_ar_Nil: "match_len non_ar_regex [] = None"
  by (simp add: match_len_non_ar)

lemma non_ar_findall_whole:
  assumes xs: "6 \<le> length xs" "\<forall>x\<in>set xs. run_char x" and bc: "not_newline b" "end_char c"
  shows "re_findall non_ar_regex (xs @ [b, c]) = [xs @ [b, c]]"
proof -
  from xs(1) obtain x ys where x: "xs = x # ys" by (cases xs) auto
  have "match_len non_ar_regex (x # ys @ [b, c]) = Some (Suc (length (ys @ [b, c])))"
    using non_ar_whole[OF xs bc] x by simp
  then have "re_findall non_ar_regex (x # ys @ [b, c]) = [x # ys @ [b, c]]"
    by (simp add: re_findall_Cons re_findall_Nil match_len_non_ar_Nil)
  then show ?thesis using x by simp
qed

lemma backoff_exists:
  "n \<le> j \<Longrightarrow> j \<le> k \<Longrightarrow> f (drop j s) \<noteq> None \<Longrightarrow> backoff f s n k \<noteq> None"
proof (induction k)
  case 0
  then show ?case by simp
next
  case (Suc k)
  show ?case
  proof (cases "j = Suc k")
    case True
    with Suc.prems show ?thesis by auto
  next
    case False
    with Suc.prems have "j \<le> k" "\<not> Suc k < n" by simp_all
    with Suc show ?thesis by (simp split: option.splits)
  qed
qed

lemma non_ar_run_matches:
  assumes xs: "6 \<le> length xs" "\<forall>x\<in>set xs. run_char x" and bc: "not_newline b" "end_char c"
  shows "\<exists>n. match_len non_ar_regex (xs @ b # c # post) = Some (Suc n)"
proof -
  let ?s = "xs @ b # c # post"
  let ?f = "match_len [One not_newline, One end_char]"
  have "length xs \<le> length (takeWhile run_char ?s)"
    using xs(2) by (simp add: takeWhile_append2)
  moreover have "?f (drop (length xs) ?s) \<noteq> None"
    using bc by (simp add: match_len_tail)
  ultimately have "match_len non_ar_regex ?s \<noteq> None"
    using xs(1) backoff_exists[of 6 "length xs" _ ?f ?s] by (simp add: match_len_non_ar)
  then obtain len where len: "match_len non_ar_regex ?s = Some len" by blast
  from non_ar_match_shape[OF this] obtain ys b' c'
    where "take len ?s = ys @ [b', c']" "6 \<le> length ys" by blast
  then have "8 \<le> length (take len ?s)" by simp
  then have "8 \<le> len" by simp
  then obtain n where "len = Suc n" by (cases len) auto
  with len show ?thesis by blast
qed

lemma scan_reaches:
  assumes "match_len p t = Some (Suc n)" and "t \<noteq> []"
  shows "covers (scan p (pre @ t)) (length pre)"
proof (induction "length pre" arbitrary: pre rule: less_induct)
  case less
  show ?case
  proof (cases pre)
    case Nil
    from assms(2) obtain c cs where "t = c # cs" by (cases t) auto
    with assms(1) Nil show ?thesis by (simp add: scan.simps)
  next
    case (Cons a pre')
    from less[of pre'] Cons have IH: "covers (scan p (pre' @ t)) (length pre')" by simp
    show ?thesis
    proof (cases "match_len p (a # pre' @ t)")
      case None
      with IH Cons show ?thesis by (simp add: scan.simps)
    next
      case (Some len)
      show ?thesis
      proof (cases len)
        case 0
        with Some IH Cons show ?thesis by (simp add: scan.simps)
      next
        case (Suc k)
        show ?thesis
        proof (cases "length pre' < k")
          case True
          with assms(2) have "length pre' < min (length pre' + length t) k" by (cases t) auto
          with Some Suc Cons show ?thesis by (simp add: scan.simps)
        next
          case False
          then have k: "k \<le> length pre'" by simp
          from less[of "drop k pre'"] Cons
          have rest: "covers (scan p (drop k pre' @ t)) (length pre' - k)" by simp
          have "scan p (pre @ t) = Match (a # take k pre') # scan p (drop k pre' @ t)"
            using Some Suc Cons k by (simp add: scan.simps)
          moreover have "length (a # take k pre') = Suc k" using k by simp
          ultimately show ?thesis using rest Cons k by simp
        qed
      qed
    qed
  qed
qed

lemma covers_Match: "covers gs i \<Longrightarrow> \<exists>m. Match m \<in> set gs"
  by (induction gs i rule: covers.induct) (auto split: nat.splits if_splits)

lemma covers_findall: "covers (scan p s) i \<Longrightarrow> re_findall p s \<noteq> []"
proof -
  assume "covers (scan p s) i"
  then obtain m where "Match m \<in> set (scan p s)" using covers_Match by blast
  then have "m \<in> set (re_findall p s)" unfolding re_findall_def by (force split: seg.splits)
  then show ?thesis by auto
qed

lemma non_ar_run_located:
  assumes "6 \<le> length xs" "\<forall>x\<in>set xs. run_char x" "not_newline b" "end_char c"
  shows "covers (scan non_ar_regex (pre @ xs @ [b, c] @ post)) (length pre)"
proof -
  from non_ar_run_matches[OF assms] obtain n
    where "match_len non_ar_regex (xs @ b # c # post) = Some (Suc n)" by blast
  from scan_reaches[OF this, of pre] show ?thesis by simp
qed

text \<open>
  C7, as amended. Every span that \<open>non_ar_regex\<close> locates is made of at least six
  characters of the class \<open>[a-zA-Z\d .;#\n\r]\<close> (Latin letters, decimal digits of any
  script, space, full stop, semicolon, hash, line feed, carriage return), then one character
  of any kind other than line feed and carriage return, then one character of the class
  \<open>[a-zA-Z\d.;#]\<close>: it has at least eight characters, and its last but one need not
  belong to any of the classes. Conversely a text of this form is located wherever it
  stands in a document: its first character lies inside a located span, which may begin
  before it, so the document has at least one span; standing alone, the text is located
  whole, as one span.
\<close>

theorem non_ar_span_is_run_then_two:
  "(\<forall>m\<in>set (re_findall non_ar_regex text).
      \<exists>xs b c. m = xs @ [b, c] \<and> 6 \<le> length xs \<and> (\<forall>x\<in>set xs. run_char x)
               \<and> not_newline b \<and> end_char c)
   \<and> (\<forall>xs b c. 6 \<le> length xs \<and> (\<forall>x\<in>set xs. run_char x) \<and> not_newline b \<and> end_char c
         \<longrightarrow> re_findall non_ar_regex (xs @ [b, c]) = [xs @ [b, c]]
           \<and> (\<forall>pre post.
                 covers (scan non_ar_regex (pre @ xs @ [b, c] @ post)) (length pre)
                 \<and> re_findall non_ar_regex (pre @ xs @ [b, c] @ post) \<noteq> []))"
  using non_ar_span_shape non_ar_findall_whole non_ar_run_located
    covers_findall[of non_ar_regex]
  by blast

theorem non_ar_span_is_run_then_two_witness:
  "abcdef @ [1605, 97] \<in> set (re_findall non_ar_regex ([1605] @ abcdef @ [1605, 97, 1605]))
   \<and> 6 \<le> length abcdef \<and> list_all run_char abcdef \<and> not_newline 1605 \<and> end_char 97
   \<and> re_findall non_ar_regex (abcdef @ [1605, 97]) = [abcdef @ [1605, 97]]
   \<and> covers (scan non_ar_regex (ascii ''12345 '' @ abcdef @ [1605, 97] @ [1605]))
        (length (ascii ''12345 ''))
   \<and> re_findall non_ar_regex (ascii ''12345 '' @ abcdef @ [1605, 97] @ [1605])
        = [ascii ''12345 '' @ abcdef @ [1605, 97]]"
proof -
  have 1: "abcdef @ [1605, 97] \<in> set (re_findall non_ar_regex ([1605] @ abcdef @ [1605, 97, 1605]))"
    by code_simp
  have 2: "6 \<le> length abcdef" "list_all run_char abcdef" "not_newline 1605" "end_char 97"
    by code_simp+
  from 2(2) have 3: "\<forall>x\<in>set abcdef. run_char x" by (simp add: list_all_iff)
  from non_ar_span_is_run_then_two [of "[1605] @ abcdef @ [1605, 97, 1605]"] 2(1) 3 2(3,4)
  have 4: "re_findall non_ar_regex (abcdef @ [1605, 97]) = [abcdef @ [1605, 97]]"
    and 5: "covers (scan non_ar_regex (ascii ''12345 '' @ abcdef @ [1605, 97] @ [1605]))
        (length (ascii ''12345 ''))"
    by blast+
  have 6: "re_findall non_ar_regex (ascii ''12345 '' @ abcdef @ [1605, 97] @ [1605])
        = [ascii ''12345 '' @ abcdef @ [1605, 97]]"
    by code_simp
  from 1 2 4 5 6 show ?thesis by blast
qed

text \<open>
  The claim as stated fails both ways: the span located in \<open>abcdef\<close> followed by an
  Arabic letter and \<open>a\<close> holds the Arabic letter, which is in none of the classes; and
  the seven Latin letters \<open>abcdefg\<close> are a run of more than six characters of the
  classes in which no span is located.
\<close>

theorem span_not_a_class_run_counterexample:
  "re_findall non_ar_regex (abcdef @ [1605, 97]) = [abcdef @ [1605, 97]]
   \<and> \<not> latin_letter 1605 \<and> \<not> decimal_digit 1605 \<and> \<not> run_char 1605
   \<and> re_findall non_ar_regex (abcdef @ [103]) = []
   \<and> list_all latin_letter (abcdef @ [103]) \<and> length (abcdef @ [103]) = 7"
  by code_simp

section \<open>Filling the slots\<close>

lemma count_matches:
  "length (filter (\<lambda>g. case g of Lit c \<Rightarrow> False | Match m \<Rightarrow> True) gs) =
   length (concat (map (\<lambda>g. case g of Lit c \<Rightarrow> [] | Match m \<Rightarrow> [m]) gs))"
  by (induction gs) (auto split: seg.splits)

lemma substitutions_findall: "substitutions p s = length (re_findall p s)"
  unfolding substitutions_def re_findall_def by (rule count_matches)

lemma scan_Lit_in_text: "Lit c \<in> set (scan p s) \<Longrightarrow> c \<in> set s"
proof (induction p s rule: scan.induct)
  case (1 p)
  then show ?case by (simp add: scan.simps split: option.splits)
next
  case (2 p d cs)
  show ?case
  proof (cases "match_len p (d # cs)")
    case None
    with 2(4) have "c = d \<or> Lit c \<in> set (scan p cs)" by (auto simp add: scan.simps)
    with 2(1)[OF None] show ?thesis by auto
  next
    case (Some len)
    show ?thesis
    proof (cases len)
      case 0
      with Some 2(4) have "c = d \<or> Lit c \<in> set (scan p cs)" by (auto simp add: scan.simps)
      with 2(2)[OF Some 0] show ?thesis by auto
    next
      case (Suc n)
      with Some 2(4) have "Lit c \<in> set (scan p (drop n cs))" by (auto simp add: scan.simps)
      with 2(3)[OF Some Suc] have "c \<in> set (drop n cs)" by simp
      then show ?thesis by (auto dest: in_set_dropD)
    qed
  qed
qed

lemma emit_Inl [simp]: "emit x (Inl e) = Inl e"
  by (simp add: emit_def)

lemma emit_Inr [simp]: "emit x (Inr out) = Inr (x @ out)"
  by (simp add: emit_def)

lemma lbrace_neq_rbrace: "lbrace \<noteq> rbrace"
  by (simp add: char_defs)

lemma str_format_plain:
  "c \<noteq> lbrace \<Longrightarrow> c \<noteq> rbrace \<Longrightarrow> str_format (c # t) args = emit [c] (str_format t args)"
  by simp

lemma str_format_slot:
  "str_format (lbrace # rbrace # t) args =
     (case args of [] \<Rightarrow> Inl IndexError | a # as \<Rightarrow> emit a (str_format t as))"
  by (simp add: lbrace_def rbrace_def)

lemma fill_enough:
  "\<forall>c. Lit c \<in> set gs \<longrightarrow> c \<noteq> lbrace \<and> c \<noteq> rbrace \<Longrightarrow>
   length (filter (\<lambda>g. case g of Lit c \<Rightarrow> False | Match m \<Rightarrow> True) gs) = k \<Longrightarrow>
   k \<le> length args \<Longrightarrow>
   \<exists>out. pair_up gs (take k args) = Some out \<and> str_format (concat (map slot gs)) args = Inr out"
proof (induction gs arbitrary: k args)
  case Nil
  then show ?case by simp
next
  case (Cons g gs)
  show ?case
  proof (cases g)
    case (Lit c)
    with Cons.prems have c: "c \<noteq> lbrace" "c \<noteq> rbrace" by auto
    from Cons.prems Lit
    have "\<exists>out. pair_up gs (take k args) = Some out \<and> str_format (concat (map slot gs)) args = Inr out"
      by (intro Cons.IH) auto
    then obtain out where "pair_up gs (take k args) = Some out"
      "str_format (concat (map slot gs)) args = Inr out" by blast
    then show ?thesis using Lit c by (simp del: str_format.simps add: str_format_plain)
  next
    case (Match m)
    with Cons.prems obtain k' where k: "k = Suc k'"
      "length (filter (\<lambda>g. case g of Lit c \<Rightarrow> False | Match m \<Rightarrow> True) gs) = k'" by auto
    with Cons.prems obtain a as where a: "args = a # as" "k' \<le> length as" by (cases args) auto
    from Cons.prems k a
    have "\<exists>out. pair_up gs (take k' as) = Some out \<and> str_format (concat (map slot gs)) as = Inr out"
      by (intro Cons.IH) auto
    then obtain out where "pair_up gs (take k' as) = Some out"
      "str_format (concat (map slot gs)) as = Inr out" by blast
    then show ?thesis using Match k a by (simp del: str_format.simps add: str_format_slot)
  qed
qed

lemma fill_short:
  "\<forall>c. Lit c \<in> set gs \<longrightarrow> c \<noteq> lbrace \<and> c \<noteq> rbrace \<Longrightarrow>
   length args < length (filter (\<lambda>g. case g of Lit c \<Rightarrow> False | Match m \<Rightarrow> True) gs) \<Longrightarrow>
   str_format (concat (map slot gs)) args = Inl IndexError"
proof (induction gs arbitrary: args)
  case Nil
  then show ?case by simp
next
  case (Cons g gs)
  show ?case
  proof (cases g)
    case (Lit c)
    with Cons.prems have c: "c \<noteq> lbrace" "c \<noteq> rbrace" by auto
    from Cons.prems Lit have "str_format (concat (map slot gs)) args = Inl IndexError"
      by (intro Cons.IH) auto
    then show ?thesis using Lit c by (simp del: str_format.simps add: str_format_plain)
  next
    case (Match m)
    show ?thesis
    proof (cases args)
      case Nil
      then show ?thesis using Match by (simp del: str_format.simps add: str_format_slot)
    next
      case (Cons a as)
      with Cons.prems Match have "str_format (concat (map slot gs)) as = Inl IndexError"
        by (intro Cons.IH) auto
      then show ?thesis using Match Cons by (simp del: str_format.simps add: str_format_slot)
    qed
  qed
qed

lemma fill_slots_eq:
  "fill_slots tagged non_ar = str_format (concat (map slot (scan pattern tagged))) non_ar"
  by (simp add: fill_slots_def re_sub_def)

lemma lits_brace_free:
  "lbrace \<notin> set tagged \<Longrightarrow> rbrace \<notin> set tagged \<Longrightarrow>
   \<forall>c. Lit c \<in> set (scan p tagged) \<longrightarrow> c \<noteq> lbrace \<and> c \<noteq> rbrace"
  using scan_Lit_in_text by blast


section \<open>Spans, placeholders and slots\<close>

lemma mask_fst: "fst (mask_non_Arabic text) = re_findall non_ar_regex text"
  by (simp add: mask_non_Arabic_def)

lemma fill_when_counts_agree:
  assumes "lbrace \<notin> set tagged" "rbrace \<notin> set tagged"
    and "length (re_findall pattern tagged) = length non_ar"
  shows "\<exists>out. fill_slots tagged non_ar = Inr out \<and> pair_up (scan pattern tagged) non_ar = Some out"
proof -
  have k: "length (filter (\<lambda>g. case g of Lit c \<Rightarrow> False | Match m \<Rightarrow> True) (scan pattern tagged))
      = length non_ar"
    using assms(3) substitutions_findall[of pattern tagged] by (simp add: substitutions_def)
  from fill_enough[OF lits_brace_free[OF assms(1,2)] k, of non_ar]
  show ?thesis by (auto simp add: fill_slots_eq)
qed

text \<open>
  C2, as amended. For every input text the number of replacements made by the
  substitution of the placeholder line equals the number of spans extracted: spans and
  placeholder lines come from the same scan, in the same order. Whenever the tagged output
  holds no brace and as many occurrences of the tagged placeholder as there are spans, the
  restoration succeeds and its result is the one-to-one pairing of occurrences and spans,
  in order of appearance.
\<close>

theorem spans_placeholders_slots:
  "substitutions non_ar_regex text = length (fst (mask_non_Arabic text))
   \<and> fst (mask_non_Arabic text) =
       concat (map (\<lambda>g. case g of Lit c \<Rightarrow> [] | Match m \<Rightarrow> [m]) (scan non_ar_regex text))
   \<and> snd (mask_non_Arabic text) =
       concat (map (\<lambda>g. case g of Lit c \<Rightarrow> [c] | Match m \<Rightarrow> placeholder_line) (scan non_ar_regex text))
   \<and> (lbrace \<notin> set tagged \<and> rbrace \<notin> set tagged
        \<and> substitutions pattern tagged = length (fst (mask_non_Arabic text))
      \<longrightarrow> (\<exists>out. fill_slots tagged (fst (mask_non_Arabic text)) = Inr out
                \<and> pair_up (scan pattern tagged) (fst (mask_non_Arabic text)) = Some out))"
proof (intro conjI impI)
  show "substitutions non_ar_regex text = length (fst (mask_non_Arabic text))"
    by (simp add: mask_fst substitutions_findall)
  show "fst (mask_non_Arabic text) =
       concat (map (\<lambda>g. case g of Lit c \<Rightarrow> [] | Match m \<Rightarrow> [m]) (scan non_ar_regex text))"
    by (simp add: mask_fst re_findall_def)
  show "snd (mask_non_Arabic text) =
       concat (map (\<lambda>g. case g of Lit c \<Rightarrow> [c] | Match m \<Rightarrow> placeholder_line) (scan non_ar_regex text))"
    by (simp add: mask_non_Arabic_def re_sub_def)
next
  assume "lbrace \<notin> set tagged \<and> rbrace \<notin> set tagged
        \<and> substitutions pattern tagged = length (fst (mask_non_Arabic text))"
  then show "\<exists>out. fill_slots tagged (fst (mask_non_Arabic text)) = Inr out
                \<and> pair_up (scan pattern tagged) (fst (mask_non_Arabic text)) = Some out"
    by (intro fill_when_counts_agree) (simp_all add: substitutions_findall)
qed

theorem spans_placeholders_slots_witness:
  "lbrace \<notin> set (ascii ''a'' @ [LF] @ tagged_placeholder @ [LF] @ ascii ''b'')
   \<and> rbrace \<notin> set (ascii ''a'' @ [LF] @ tagged_placeholder @ [LF] @ ascii ''b'')
   \<and> substitutions pattern (ascii ''a'' @ [LF] @ tagged_placeholder @ [LF] @ ascii ''b'')
       = length (fst (mask_non_Arabic hello_world))
   \<and> fst (mask_non_Arabic hello_world) = [hello]
   \<and> fill_slots (ascii ''a'' @ [LF] @ tagged_placeholder @ [LF] @ ascii ''b'')
        (fst (mask_non_Arabic hello_world)) = Inr (ascii ''a'' @ hello @ ascii ''b'')
   \<and> pair_up (scan pattern (ascii ''a'' @ [LF] @ tagged_placeholder @ [LF] @ ascii ''b''))
        (fst (mask_non_Arabic hello_world)) = Some (ascii ''a'' @ hello @ ascii ''b'')"
proof -
  let ?t = "ascii ''a'' @ [LF] @ tagged_placeholder @ [LF] @ ascii ''b''"
  have 1: "lbrace \<notin> set ?t" "rbrace \<notin> set ?t" by code_simp+
  have 2: "substitutions pattern ?t = length (fst (mask_non_Arabic hello_world))" by code_simp
  have 3: "fst (mask_non_Arabic hello_world) = [hello]" by code_simp
  have 4: "fill_slots ?t (fst (mask_non_Arabic hello_world)) = Inr (ascii ''a'' @ hello @ ascii ''b'')"
    by code_simp
  from spans_placeholders_slots [of hello_world ?t] 1 2
  obtain out where "fill_slots ?t (fst (mask_non_Arabic hello_world)) = Inr out"
    "pair_up (scan pattern ?t) (fst (mask_non_Arabic hello_world)) = Some out" by blast
  with 4 have "pair_up (scan pattern ?t) (fst (mask_non_Arabic hello_world))
      = Some (ascii ''a'' @ hello @ ascii ''b'')" by simp
  with 1 2 3 4 show ?thesis by blast
qed

text \<open>
  The claim as stated fails: the count of slots is that of the occurrences in the tagged
  output, which the flow does not tie to the count of spans. For the document made of a
  line of three \<open>mu\<close> and the sentence \<open>Hello world.\<close> one span is extracted; a tagged
  output with two occurrences of the tagged placeholder makes the restoration raise, and
  an empty tagged output makes it fill no slot at all.
\<close>

theorem slots_differ_from_spans_counterexample:
  "fst (mask_non_Arabic ([mu, mu, mu] @ [LF] @ hello)) = [[LF] @ hello]
   \<and> snd (mask_non_Arabic ([mu, mu, mu] @ [LF] @ hello)) = [mu, mu, mu] @ placeholder_line
   \<and> substitutions pattern (tagged_placeholder @ [LF] @ tagged_placeholder @ [LF]) = 2
   \<and> fill_slots (tagged_placeholder @ [LF] @ tagged_placeholder @ [LF])
        (fst (mask_non_Arabic ([mu, mu, mu] @ [LF] @ hello))) = Inl IndexError
   \<and> substitutions pattern [] = 0
   \<and> fill_slots [] (fst (mask_non_Arabic ([mu, mu, mu] @ [LF] @ hello))) = Inr []"
  by code_simp

text \<open>
  C5, as amended. Let the tagged output hold no brace. With more occurrences of the tagged
  placeholder than spans, filling the slots raises \<open>IndexError\<close>, and so does the
  restoration. With fewer occurrences than spans nothing is raised: the result is the one
  obtained from the first spans alone, as many as there are occurrences, and the spans
  beyond them are dropped.
\<close>

theorem count_mismatch_without_braces:
  assumes "lbrace \<notin> set tagged" and "rbrace \<notin> set tagged"
  shows "(length non_ar < length (re_findall pattern tagged) \<longrightarrow>
            fill_slots tagged non_ar = Inl IndexError
          \<and> restore_non_Arabic tagged non_ar = Inl IndexError)
       \<and> (length (re_findall pattern tagged) < length non_ar \<longrightarrow>
            (\<exists>out. fill_slots tagged non_ar = Inr out
                 \<and> fill_slots tagged (take (length (re_findall pattern tagged)) non_ar) = Inr out
                 \<and> pair_up (scan pattern tagged)
                     (take (length (re_findall pattern tagged)) non_ar) = Some out))"
proof (intro conjI impI)
  assume "length non_ar < length (re_findall pattern tagged)"
  then have "length non_ar
      < length (filter (\<lambda>g. case g of Lit c \<Rightarrow> False | Match m \<Rightarrow> True) (scan pattern tagged))"
    using substitutions_findall[of pattern tagged] by (simp add: substitutions_def)
  from fill_short[OF lits_brace_free[OF assms] this]
  show f: "fill_slots tagged non_ar = Inl IndexError" by (simp add: fill_slots_eq)
  then show "restore_non_Arabic tagged non_ar = Inl IndexError"
    by (simp add: restore_non_Arabic_def)
next
  let ?M = "length (re_findall pattern tagged)"
  assume lt: "?M < length non_ar"
  have k: "length (filter (\<lambda>g. case g of Lit c \<Rightarrow> False | Match m \<Rightarrow> True) (scan pattern tagged)) = ?M"
    using substitutions_findall[of pattern tagged] by (simp add: substitutions_def)
  from lt have le: "?M \<le> length non_ar" by simp
  from fill_enough[OF lits_brace_free[OF assms] k le]
  obtain out where o: "pair_up (scan pattern tagged) (take ?M non_ar) = Some out"
    "fill_slots tagged non_ar = Inr out" by (auto simp add: fill_slots_eq)
  have "length (re_findall pattern tagged) = length (take ?M non_ar)" using le by simp
  from fill_when_counts_agree[OF assms this] o(1)
  have "fill_slots tagged (take ?M non_ar) = Inr out" by auto
  with o show "\<exists>out. fill_slots tagged non_ar = Inr out
                 \<and> fill_slots tagged (take ?M non_ar) = Inr out
                 \<and> pair_up (scan pattern tagged) (take ?M non_ar) = Some out" by blast
qed

theorem count_mismatch_without_braces_witness:
  "lbrace \<notin> set (tagged_placeholder @ ascii ''x'' @ tagged_placeholder)
   \<and> rbrace \<notin> set (tagged_placeholder @ ascii ''x'' @ tagged_placeholder)
   \<and> length [hello] < length (re_findall pattern (tagged_placeholder @ ascii ''x'' @ tagged_placeholder))
   \<and> fill_slots (tagged_placeholder @ ascii ''x'' @ tagged_placeholder) [hello] = Inl IndexError
   \<and> restore_non_Arabic (tagged_placeholder @ ascii ''x'' @ tagged_placeholder) [hello] = Inl IndexError
   \<and> length (re_findall pattern (tagged_placeholder @ ascii ''x'' @ tagged_placeholder))
       < length [hello, abcdef, hello]
   \<and> fill_slots (tagged_placeholder @ ascii ''x'' @ tagged_placeholder) [hello, abcdef, hello]
       = Inr (hello @ ascii ''x'' @ abcdef)
   \<and> fill_slots (tagged_placeholder @ ascii ''x'' @ tagged_placeholder) [hello, abcdef]
       = Inr (hello @ ascii ''x'' @ abcdef)"
proof -
  let ?t = "tagged_placeholder @ ascii ''x'' @ tagged_placeholder"
  have b: "lbrace \<notin> set ?t" "rbrace \<notin> set ?t" by code_simp+
  have m: "length (re_findall pattern ?t) = 2" by code_simp
  have l1: "length [hello] < length (re_findall pattern ?t)" using m by simp
  have l2: "length (re_findall pattern ?t) < length [hello, abcdef, hello]" using m by simp
  have e: "fill_slots ?t [hello, abcdef, hello] = Inr (hello @ ascii ''x'' @ abcdef)" by code_simp
  from count_mismatch_without_braces [OF b, of "[hello]"] l1
  have r: "fill_slots ?t [hello] = Inl IndexError" "restore_non_Arabic ?t [hello] = Inl IndexError"
    by blast+
  from count_mismatch_without_braces [OF b, of "[hello, abcdef, hello]"] l2
  obtain out where "fill_slots ?t [hello, abcdef, hello] = Inr out"
    "fill_slots ?t (take (length (re_findall pattern ?t)) [hello, abcdef, hello]) = Inr out"
    by blast
  with e m have "fill_slots ?t [hello, abcdef] = Inr (hello @ ascii ''x'' @ abcdef)" by simp
  with b l1 l2 e r show ?thesis by blast
qed

text \<open>
  The claim as stated fails when the tagged output holds braces: with one occurrence
  between two braces and no span nothing is raised, and with no occurrence, a closing brace
  and one span the restoration raises instead of dropping the span.
\<close>

theorem count_mismatch_with_braces_counterexample:
  "length ([] :: ustr list) < length (re_findall pattern ([lbrace] @ tagged_placeholder @ [rbrace]))
   \<and> fill_slots ([lbrace] @ tagged_placeholder @ [rbrace]) [] = Inr [lbrace, rbrace]
   \<and> restore_non_Arabic ([lbrace] @ tagged_placeholder @ [rbrace]) [] = Inr [lbrace, rbrace]
   \<and> length (re_findall pattern brace_sentence) < length [hello]
   \<and> fill_slots brace_sentence [hello] = Inl ValueError
   \<and> restore_non_Arabic brace_sentence [hello] = Inl ValueError"
  by code_simp

section \<open>Documents without spans\<close>




end
